theory Spec2Isabelle
  imports Main "HOL-Library.Word"
begin

section \<open>The segmented buffer of \<open>segmented_buffer.hpp\<close>\<close>

text \<open>
  The header defines one class template, \<open>Buffer<Underlier, Tags...>\<close>: a single
  allocation of \<open>Underlier\<close> elements carved into one segment per tag. Tags are C++
  types that only serve as names, so a pack \<open>Tags...\<close> is a list over a type \<open>'t\<close> of
  names, and the metafunctions over packs are functions over lists. \<open>std::size_t\<close> is an
  unsigned machine integer of some width \<open>w\<close>: a \<open>'w word\<close>. What the compiler rejects
  (an unsatisfied \<open>requires\<close> clause, an incomplete type, a deleted function) is an error
  value, like what the running program rejects.
\<close>

datatype error =
    ConstraintsNotSatisfied  \<comment> \<open>a \<open>requires\<close> clause is false: rejected by the compiler\<close>
  | IncompleteType           \<comment> \<open>\<open>index_of<T>\<close> with an empty pack: only declared\<close>
  | UseOfDeletedFunction     \<comment> \<open>a call of a function declared \<open>= delete\<close>\<close>
  | OutOfBounds              \<comment> \<open>\<open>std::array::operator[]\<close> outside the array (undefined in C++)\<close>
  | BadAlloc                 \<comment> \<open>\<open>std::bad_alloc\<close> thrown by \<open>std::make_unique\<close>\<close>

subsection \<open>namespace detail\<close>

text \<open>\<open>contains_v<T, Ts...> = (std::is_same_v<T, Ts> || ...)\<close>; the empty fold is false.\<close>

fun contains_v :: "'t \<Rightarrow> 't list \<Rightarrow> bool" where
  "contains_v T [] = False"
| "contains_v T (U # Ts) = (T = U \<or> contains_v T Ts)"

text \<open>
  \<open>index_of<T, Ts...>\<close>: the primary template is declared and never defined; the
  specialisation \<open>index_of<T, T, Ts...>\<close> is 0 and is the more specialised one, the
  specialisation \<open>index_of<T, U, Ts...>\<close> is \<open>1 + index_of<T, Ts...>::value\<close>.
\<close>

fun index_of :: "'t \<Rightarrow> 't list \<Rightarrow> error + nat" where
  "index_of T [] = Inl IncompleteType"
| "index_of T (U # Ts) =
     (if T = U then Inr 0
      else case index_of T Ts of Inl e \<Rightarrow> Inl e | Inr i \<Rightarrow> Inr (1 + i))"

text \<open>
  \<open>unique_types_v<> = true\<close> and
  \<open>unique_types_v<T, Rest...> = (!std::is_same_v<T, Rest> && ...) && unique_types_v<Rest...>\<close>.
\<close>

fun unique_types_v :: "'t list \<Rightarrow> bool" where
  "unique_types_v [] = True"
| "unique_types_v (T # Rest) = (list_all (\<lambda>R. \<not> T = R) Rest \<and> unique_types_v Rest)"

definition UniqueTags :: "'t list \<Rightarrow> bool" where
  "UniqueTags Tags = unique_types_v Tags"

text \<open>\<open>struct SegmentSize<Tag> { using tag = Tag; std::size_t n; }\<close>\<close>

record (overloaded) ('t, 'w) SegmentSize =
  tag :: 't
  n :: "'w word"

text \<open>\<open>Segment<Tag>(n)\<close> returns \<open>detail::SegmentSize<Tag>{n}\<close>.\<close>

definition Segment :: "'t \<Rightarrow> 'w::len word \<Rightarrow> ('t, 'w) SegmentSize" where
  "Segment Tag count = \<lparr>tag = Tag, n = count\<rparr>"

subsection \<open>The allocator and \<open>std::span\<close>\<close>

text \<open>
  The free store holds the arrays made by \<open>new Underlier[count]()\<close>, each under its own
  address; \<open>next_addr\<close> is the address the next array gets and \<open>avail\<close> the number of
  elements the store can still hand out. \<open>std::make_unique<Underlier[]>(count)\<close> throws
  \<open>std::bad_alloc\<close> when the store cannot serve the request, and otherwise makes a new
  array of \<open>count\<close> value-initialised elements, also when \<open>count\<close> is 0.
\<close>

record 'u heap =
  cells :: "nat \<Rightarrow> 'u list option"
  next_addr :: nat
  avail :: nat

definition make_unique :: "'u::zero heap \<Rightarrow> 'w::len word \<Rightarrow> error + (nat \<times> 'u heap)" where
  "make_unique h count =
     (if avail h < unat count then Inl BadAlloc
      else Inr (next_addr h,
                h\<lparr>cells := (cells h)(next_addr h \<mapsto> replicate (unat count) 0),
                  next_addr := Suc (next_addr h),
                  avail := avail h - unat count\<rparr>))"

text \<open>
  The destructor and the move assignment of \<open>std::unique_ptr<Underlier[]>\<close>: the array
  owned, if any, goes back to the store.
\<close>

definition unique_ptr_delete :: "'u heap \<Rightarrow> nat option \<Rightarrow> 'u heap" where
  "unique_ptr_delete h p =
     (case p of
        None \<Rightarrow> h
      | Some a \<Rightarrow>
          (case cells h a of
             None \<Rightarrow> h
           | Some blk \<Rightarrow> h\<lparr>cells := (cells h)(a := None), avail := avail h + length blk\<rparr>))"

text \<open>
  \<open>std::span<Underlier>\<close> is a pointer and a size. The pointer \<open>data_.get() + start\<close> is
  the array it points into (\<open>None\<close> for \<open>nullptr\<close>) and an element offset.
  \<open>span[k]\<close> is defined for \<open>k < size()\<close> over live storage; everything else is
  undefined behaviour, \<open>None\<close> here.
\<close>

record (overloaded) 'w span =
  span_data :: "nat option"
  span_offset :: nat
  span_size :: "'w word"

definition span_read :: "'u heap \<Rightarrow> 'w::len span \<Rightarrow> 'w word \<Rightarrow> 'u option" where
  "span_read h v k =
     (if \<not> k < span_size v then None
      else case span_data v of
             None \<Rightarrow> None
           | Some a \<Rightarrow>
               (case cells h a of
                  None \<Rightarrow> None
                | Some blk \<Rightarrow>
                    if span_offset v + unat k < length blk
                    then Some (blk ! (span_offset v + unat k)) else None))"

definition span_write :: "'u heap \<Rightarrow> 'w::len span \<Rightarrow> 'w word \<Rightarrow> 'u \<Rightarrow> 'u heap option" where
  "span_write h v k x =
     (if \<not> k < span_size v then None
      else case span_data v of
             None \<Rightarrow> None
           | Some a \<Rightarrow>
               (case cells h a of
                  None \<Rightarrow> None
                | Some blk \<Rightarrow>
                    if span_offset v + unat k < length blk
                    then Some (h\<lparr>cells := (cells h)(a \<mapsto> blk[span_offset v + unat k := x])\<rparr>)
                    else None))"

text \<open>The element positions of the array that a span covers.\<close>

definition span_range :: "'w::len span \<Rightarrow> nat set" where
  "span_range v = {span_offset v ..< span_offset v + unat (span_size v)}"

subsection \<open>class Buffer\<close>

text \<open>
  \<open>std::array<std::size_t, N> ends_{}\<close> and \<open>std::unique_ptr<Underlier[]> data_{}\<close>
  (the fields are \<open>ends\<close> and \<open>data\<close> here). \<open>N = sizeof...(Tags)\<close> is the length of the
  pack, which every operation takes as its first argument.
\<close>

record (overloaded) 'w Buffer =
  ends :: "'w word list"
  data :: "nat option"

text \<open>\<open>ends_[i]\<close>, read and written; outside the array it is undefined in C++.\<close>

definition array_at :: "'a list \<Rightarrow> nat \<Rightarrow> error + 'a" where
  "array_at xs i = (if i < length xs then Inr (xs ! i) else Inl OutOfBounds)"

definition array_set :: "'a list \<Rightarrow> nat \<Rightarrow> 'a \<Rightarrow> error + 'a list" where
  "array_set xs i x = (if i < length xs then Inr (xs[i := x]) else Inl OutOfBounds)"

text \<open>
  The lambda of the constructor, \<open>add = [&](std::size_t count) { cur += count; ends_[i++] = cur; }\<close>,
  on the variables it captures: \<open>cur\<close>, \<open>i\<close> and \<open>ends_\<close> (\<open>es\<close>).
\<close>

definition add :: "'w::len word \<Rightarrow> 'w word \<times> nat \<times> 'w word list
                     \<Rightarrow> error + ('w word \<times> nat \<times> 'w word list)" where
  "add count s =
     (case s of (cur, i, es) \<Rightarrow>
        (case array_set es i (cur + count) of
           Inl e \<Rightarrow> Inl e
         | Inr ends' \<Rightarrow> Inr (cur + count, i + 1, ends')))"

text \<open>The fold \<open>(add(specs.n), ...)\<close> over the comma operator: left to right.\<close>

fun add_all :: "('t, 'w::len) SegmentSize list \<Rightarrow> 'w word \<times> nat \<times> 'w word list
                  \<Rightarrow> error + ('w word \<times> nat \<times> 'w word list)" where
  "add_all [] s = Inr s"
| "add_all (spec # specs) s =
     (case add (n spec) s of Inl e \<Rightarrow> Inl e | Inr s' \<Rightarrow> add_all specs s')"

text \<open>\<open>N == 0 ? 0 : ends_[N - 1]\<close>, in the constructor and in \<open>total_size\<close>.\<close>

definition last_end :: "nat \<Rightarrow> 'w::len word list \<Rightarrow> error + 'w word" where
  "last_end N es = (if N = 0 then Inr 0 else array_at es (N - 1))"

text \<open>
  The constructor \<open>Buffer(const Specs... specs)\<close> of \<open>Buffer<Underlier, Tags...>\<close>. The
  class requires \<open>UniqueTags<Tags...>\<close> and the constructor requires that
  \<open>std::tuple<Specs...>\<close> is \<open>std::tuple<SegmentSize<Tags>...>\<close>: the compiler checks both
  before any statement runs. (\<open>BufferElement<Underlier>\<close> is a property of the element
  type alone and is taken as given.) The result is the error or the buffer, and the store
  afterwards.
\<close>

definition Buffer_ctor :: "'t list \<Rightarrow> ('t, 'w::len) SegmentSize list \<Rightarrow> 'u::zero heap
                             \<Rightarrow> (error + 'w Buffer) \<times> 'u heap" where
  "Buffer_ctor Tags specs h =
     (if \<not> UniqueTags Tags then (Inl ConstraintsNotSatisfied, h)
      else if \<not> map tag specs = Tags then (Inl ConstraintsNotSatisfied, h)
      else case add_all specs (0, 0, replicate (length Tags) 0) of
             Inl e \<Rightarrow> (Inl e, h)
           | Inr (cur, i, es) \<Rightarrow>
               (case last_end (length Tags) es of
                  Inl e \<Rightarrow> (Inl e, h)
                | Inr sz \<Rightarrow>
                    (case make_unique h sz of
                       Inl e \<Rightarrow> (Inl e, h)
                     | Inr (p, h') \<Rightarrow> (Inr \<lparr>ends = es, data = Some p\<rparr>, h'))))"

text \<open>\<open>MakeSegmentedBuffer<Underlier>(specs...)\<close> takes the tags from the specifications.\<close>

definition MakeSegmentedBuffer :: "('t, 'w::len) SegmentSize list \<Rightarrow> 'u::zero heap
                                     \<Rightarrow> (error + 'w Buffer) \<times> 'u heap" where
  "MakeSegmentedBuffer specs h = Buffer_ctor (map tag specs) specs h"

text \<open>
  \<open>get<Tag>()\<close>, the same body in the const and the non-const overload: it requires
  \<open>contains_v<Tag, Tags...>\<close>, and returns \<open>{data_.get() + start, end - start}\<close>.
\<close>

definition get :: "'t list \<Rightarrow> 'w::len Buffer \<Rightarrow> 't \<Rightarrow> error + 'w span" where
  "get Tags b Tag =
     (if \<not> contains_v Tag Tags then Inl ConstraintsNotSatisfied
      else case index_of Tag Tags of
             Inl e \<Rightarrow> Inl e
           | Inr i \<Rightarrow>
               (case array_at (ends b) i of
                  Inl e \<Rightarrow> Inl e
                | Inr end_i \<Rightarrow>
                    (case (if i = 0 then Inr 0 else array_at (ends b) (i - 1)) of
                       Inl e \<Rightarrow> Inl e
                     | Inr start \<Rightarrow>
                         Inr \<lparr>span_data = data b, span_offset = unat start,
                              span_size = end_i - start\<rparr>)))"

text \<open>\<open>total_size()\<close>\<close>

definition total_size :: "'t list \<Rightarrow> 'w::len Buffer \<Rightarrow> error + 'w word" where
  "total_size Tags b = last_end (length Tags) (ends b)"

text \<open>
  The special members. Copy construction and copy assignment are \<open>= delete\<close>. The move
  constructor and the move assignment are \<open>= default\<close>, member by member: moving a
  \<open>std::array\<close> of \<open>std::size_t\<close> copies it, and moving a \<open>std::unique_ptr\<close> hands the
  pointer over and leaves \<open>nullptr\<close> behind. The move constructor makes a new object and
  returns it and then the source. The move assignment works on two existing objects,
  which may be one and the same (\<open>a = std::move(a)\<close>), so it takes them by name from a
  table of the buffer objects: it copies \<open>ends_\<close>, then assigns \<open>data_\<close> as
  \<open>std::unique_ptr\<close> does, \<open>reset(other.release())\<close>: the source gives its pointer up,
  the destination takes it and deletes the one it held until then. The implicit
  destructor deletes \<open>data_\<close>.
\<close>

definition Buffer_copy :: "'w::len Buffer \<Rightarrow> error + 'w Buffer" where
  "Buffer_copy src = Inl UseOfDeletedFunction"

definition Buffer_move :: "'w::len Buffer \<Rightarrow> 'w Buffer \<times> 'w Buffer" where
  "Buffer_move src = (\<lparr>ends = ends src, data = data src\<rparr>, src\<lparr>data := None\<rparr>)"

definition Buffer_move_assign :: "'u heap \<Rightarrow> (nat \<Rightarrow> 'w::len Buffer) \<Rightarrow> nat \<Rightarrow> nat
                                    \<Rightarrow> (nat \<Rightarrow> 'w Buffer) \<times> 'u heap" where
  "Buffer_move_assign h objs dst other =
     (let objs1 = objs(dst := (objs dst)\<lparr>ends := ends (objs other)\<rparr>);
          p = data (objs1 other);
          objs2 = objs1(other := (objs1 other)\<lparr>data := None\<rparr>);
          old = data (objs2 dst);
          objs3 = objs2(dst := (objs2 dst)\<lparr>data := p\<rparr>)
      in (objs3, unique_ptr_delete h old))"

definition Buffer_dtor :: "'u heap \<Rightarrow> 'w::len Buffer \<Rightarrow> 'u heap" where
  "Buffer_dtor h b = unique_ptr_delete h (data b)"

subsection \<open>Vocabulary of the properties\<close>

text \<open>
  The layout as the specification words it: walk the requested lengths in order with a
  running total that starts at 0, add each length to the running total and record the
  new running total as the end boundary of that segment. Lengths are natural numbers here.
\<close>

fun spec_boundaries :: "nat \<Rightarrow> nat list \<Rightarrow> nat list" where
  "spec_boundaries running [] = []"
| "spec_boundaries running (L # Ls) = (running + L) # spec_boundaries (running + L) Ls"

text \<open>The requested lengths \<open>L_1..L_N\<close> of a list of specifications, as numbers.\<close>

definition lengths :: "('t, 'w::len) SegmentSize list \<Rightarrow> nat list" where
  "lengths specs = map (\<lambda>spec. unat (n spec)) specs"

text \<open>The same walk in \<open>std::size_t\<close> arithmetic: what the constructor leaves in \<open>ends_\<close>.\<close>

fun running_totals :: "'w::len word \<Rightarrow> 'w word list \<Rightarrow> 'w word list" where
  "running_totals cur [] = []"
| "running_totals cur (c # cs) = (cur + c) # running_totals (cur + c) cs"

text \<open>A store in which nothing is allocated yet, with room for \<open>m\<close> elements.\<close>

definition store0 :: "nat \<Rightarrow> 'u heap" where
  "store0 m = \<lparr>cells = Map.empty, next_addr = 0, avail = m\<rparr>"

text \<open>The array of the buffer is alive in the store \<open>g\<close> and has \<open>len\<close> elements.\<close>

definition owns :: "'u heap \<Rightarrow> 'w::len Buffer \<Rightarrow> nat \<Rightarrow> bool" where
  "owns g b len =
     (case data b of
        None \<Rightarrow> False
      | Some p \<Rightarrow> (case cells g p of None \<Rightarrow> False | Some blk \<Rightarrow> length blk = len))"

section \<open>Properties\<close>

subsection \<open>The metafunctions\<close>

lemma contains_v_iff: "contains_v T Ts \<longleftrightarrow> T \<in> set Ts"
  by (induction Ts) auto

lemma unique_types_v_iff: "unique_types_v Ts \<longleftrightarrow> distinct Ts"
  by (induction Ts) (auto simp: list_all_iff)

lemma index_of_nth: "distinct Ts \<Longrightarrow> i < length Ts \<Longrightarrow> index_of (Ts ! i) Ts = Inr i"
proof (induction Ts arbitrary: i)
  case Nil
  then show ?case by simp
next
  case (Cons U Ts)
  show ?case
  proof (cases i)
    case 0
    then show ?thesis by simp
  next
    case (Suc j)
    with Cons.prems have "j < length Ts" "distinct Ts" "Ts ! j \<noteq> U"
      by auto
    with Cons.IH [of j] Suc show ?thesis by simp
  qed
qed

lemma index_of_Inr: "index_of T Ts = Inr i \<Longrightarrow> i < length Ts \<and> Ts ! i = T"
  by (induction Ts arbitrary: i) (auto split: if_splits sum.splits)

lemma index_of_mem: "T \<in> set Ts \<Longrightarrow> \<exists>i. index_of T Ts = Inr i"
  by (induction Ts) (auto split: sum.splits)

subsection \<open>Sums of lengths\<close>

lemma sum_list_take_Suc:
  "i < length (cs :: 'a::monoid_add list) \<Longrightarrow>
   sum_list (take (Suc i) cs) = sum_list (take i cs) + cs ! i"
  by (simp add: take_Suc_conv_app_nth)

lemma sum_list_take_mono:
  "i \<le> j \<Longrightarrow> sum_list (take i (Ls :: nat list)) \<le> sum_list (take j Ls)"
proof -
  assume "i \<le> j"
  then have "take j Ls = take i Ls @ take (j - i) (drop i Ls)"
    using take_add [of i "j - i" Ls] by simp
  then show ?thesis by simp
qed

lemma sum_list_take_le: "sum_list (take i (Ls :: nat list)) \<le> sum_list Ls"
  using sum_list_take_mono [of i "max i (length Ls)" Ls] by simp

lemma ranges_cover:
  "(\<Union>i<length Ls. {sum_list (take i Ls) ..< sum_list (take (Suc i) Ls)})
     = {0 ..< sum_list (Ls :: nat list)}"
proof (induction Ls rule: rev_induct)
  case Nil
  then show ?case by simp
next
  case (snoc L Ls)
  have "(\<Union>i<length (Ls @ [L]).
            {sum_list (take i (Ls @ [L])) ..< sum_list (take (Suc i) (Ls @ [L]))})
      = (\<Union>i<length Ls. {sum_list (take i (Ls @ [L])) ..< sum_list (take (Suc i) (Ls @ [L]))})
        \<union> {sum_list Ls ..< sum_list Ls + L}"
    by (simp add: lessThan_Suc Un_commute)
  also have "(\<Union>i<length Ls. {sum_list (take i (Ls @ [L])) ..< sum_list (take (Suc i) (Ls @ [L]))})
      = (\<Union>i<length Ls. {sum_list (take i Ls) ..< sum_list (take (Suc i) Ls)})"
    by (rule SUP_cong) auto
  also have "\<dots> = {0 ..< sum_list Ls}" by (rule snoc.IH)
  also have "{0 ..< sum_list Ls} \<union> {sum_list Ls ..< sum_list Ls + L} = {0 ..< sum_list (Ls @ [L])}"
    by auto
  finally show ?case .
qed

lemma unat_sum_list:
  "unat (sum_list (cs :: 'w::len word list)) = sum_list (map unat cs) mod 2 ^ LENGTH('w)"
proof (induction cs)
  case Nil
  then show ?case by simp
next
  case (Cons c cs)
  have "unat (c + sum_list cs) = (unat c + unat (sum_list cs)) mod 2 ^ LENGTH('w)"
    by (simp add: unat_word_ariths)
  also have "\<dots> = (unat c + sum_list (map unat cs) mod 2 ^ LENGTH('w)) mod 2 ^ LENGTH('w)"
    by (simp add: Cons.IH)
  also have "\<dots> = (unat c + sum_list (map unat cs)) mod 2 ^ LENGTH('w)"
    by (rule mod_add_right_eq)
  finally show ?case by simp
qed

lemma unat_sum_list_take:
  assumes "sum_list (map unat (cs :: 'w::len word list)) < 2 ^ LENGTH('w)"
  shows "unat (sum_list (take i cs)) = sum_list (take i (map unat cs))"
proof -
  have "sum_list (take i (map unat cs)) \<le> sum_list (map unat cs)"
    by (rule sum_list_take_le)
  with assms have "sum_list (map unat (take i cs)) < 2 ^ LENGTH('w)"
    by (simp add: take_map)
  then show ?thesis
    by (simp add: unat_sum_list take_map)
qed

subsection \<open>The constructor\<close>

lemma length_running_totals: "length (running_totals cur cs) = length cs"
  by (induction cs arbitrary: cur) auto

lemma running_totals_nth:
  "j < length cs \<Longrightarrow> running_totals cur cs ! j = cur + sum_list (take (Suc j) cs)"
proof (induction cs arbitrary: cur j)
  case Nil
  then show ?case by simp
next
  case (Cons c cs)
  then show ?case by (cases j) (auto simp: add.assoc)
qed

text \<open>The fold writes the running totals into the positions from \<open>i\<close> on.\<close>

lemma add_all_totals:
  "i + length specs \<le> length es \<Longrightarrow>
   add_all specs (cur, i, es) =
     Inr (cur + sum_list (map n specs), i + length specs,
          take i es @ running_totals cur (map n specs) @ drop (i + length specs) es)"
proof (induction specs arbitrary: cur i es)
  case Nil
  then show ?case by simp
next
  case (Cons spec specs)
  from Cons.prems have i: "i < length es"
    and le: "Suc i + length specs \<le> length (es[i := cur + n spec])"
    by auto
  have "add (n spec) (cur, i, es) = Inr (cur + n spec, Suc i, es[i := cur + n spec])"
    using i by (simp add: add_def array_set_def)
  then have "add_all (spec # specs) (cur, i, es)
      = add_all specs (cur + n spec, Suc i, es[i := cur + n spec])"
    by simp
  also have "\<dots> = Inr (cur + n spec + sum_list (map n specs), Suc i + length specs,
      take (Suc i) (es[i := cur + n spec]) @ running_totals (cur + n spec) (map n specs)
        @ drop (Suc i + length specs) (es[i := cur + n spec]))"
    by (rule Cons.IH [OF le])
  also have "take (Suc i) (es[i := cur + n spec]) = take i es @ [cur + n spec]"
    using i by (simp add: take_Suc_conv_app_nth)
  also have "drop (Suc i + length specs) (es[i := cur + n spec]) = drop (Suc i + length specs) es"
    by simp
  finally show ?case by (simp add: add.assoc)
qed

lemma add_all_ctor:
  "length specs = N \<Longrightarrow>
   add_all specs (0, 0, replicate N 0) =
     Inr (sum_list (map n specs), N, running_totals 0 (map n specs))"
  using add_all_totals [of 0 specs "replicate N 0" 0]
  by (simp add: length_running_totals)

lemma last_end_running_totals:
  "last_end (length cs) (running_totals 0 cs) = Inr (sum_list cs)"
proof (cases cs rule: rev_cases)
  case Nil
  then show ?thesis by (simp add: last_end_def)
next
  case (snoc ys y)
  then have "length cs - 1 < length cs" by simp
  then show ?thesis
    using running_totals_nth [of "length cs - 1" cs 0] snoc
    by (simp add: last_end_def array_at_def length_running_totals)
qed

lemma Buffer_ctor_ok:
  assumes "distinct Tags" and "map tag specs = Tags"
  shows "Buffer_ctor Tags specs h =
     (case make_unique h (sum_list (map n specs)) of
        Inl e \<Rightarrow> (Inl e, h)
      | Inr (p, h') \<Rightarrow> (Inr \<lparr>ends = running_totals 0 (map n specs), data = Some p\<rparr>, h'))"
proof -
  from assms have len: "length specs = length Tags" by auto
  have "last_end (length Tags) (running_totals 0 (map n specs)) = Inr (sum_list (map n specs))"
    using last_end_running_totals [of "map n specs"] len by simp
  then show ?thesis
    using assms
    by (simp add: Buffer_ctor_def UniqueTags_def unique_types_v_iff add_all_ctor [OF len])
qed

lemma Buffer_ctor_rejects:
  "\<not> distinct Tags \<or> map tag specs \<noteq> Tags \<Longrightarrow>
   Buffer_ctor Tags specs h = (Inl ConstraintsNotSatisfied, h)"
  by (auto simp: Buffer_ctor_def UniqueTags_def unique_types_v_iff)

lemma Buffer_ctor_InrD:
  assumes "Buffer_ctor Tags specs h = (Inr b, h')"
  shows "distinct Tags" and "map tag specs = Tags" and "length specs = length Tags"
    and "ends b = running_totals 0 (map n specs)"
    and "unat (sum_list (map n specs)) \<le> avail h"
    and "data b = Some (next_addr h)"
    and "h' = h\<lparr>cells := (cells h)(next_addr h \<mapsto> replicate (unat (sum_list (map n specs))) 0),
                next_addr := Suc (next_addr h),
                avail := avail h - unat (sum_list (map n specs))\<rparr>"
proof -
  show d: "distinct Tags" and m: "map tag specs = Tags"
    using assms Buffer_ctor_rejects [of Tags specs h] by auto
  from m show "length specs = length Tags" by auto
  from assms Buffer_ctor_ok [OF d m, of h]
  have "(case make_unique h (sum_list (map n specs)) of
        Inl e \<Rightarrow> (Inl e, h)
      | Inr (p, h') \<Rightarrow> (Inr \<lparr>ends = running_totals 0 (map n specs), data = Some p\<rparr>, h'))
      = (Inr b, h')"
    by simp
  then show "ends b = running_totals 0 (map n specs)"
    and "unat (sum_list (map n specs)) \<le> avail h"
    and "data b = Some (next_addr h)"
    and "h' = h\<lparr>cells := (cells h)(next_addr h \<mapsto> replicate (unat (sum_list (map n specs))) 0),
                next_addr := Suc (next_addr h),
                avail := avail h - unat (sum_list (map n specs))\<rparr>"
    by (auto simp: make_unique_def split: if_splits)
qed

lemma total_size_ctor:
  assumes "Buffer_ctor Tags specs h = (Inr b, h')"
  shows "total_size Tags b = Inr (sum_list (map n specs))"
  using Buffer_ctor_InrD(3,4) [OF assms] last_end_running_totals [of "map n specs"]
  by (simp add: total_size_def)

lemma get_ctor:
  assumes c: "Buffer_ctor Tags specs h = (Inr b, h')" and i: "i < length Tags"
  shows "get Tags b (Tags ! i) =
           Inr \<lparr>span_data = data b,
                span_offset = unat (sum_list (take i (map n specs))),
                span_size = n (specs ! i)\<rparr>"
proof -
  note D = Buffer_ctor_InrD [OF c]
  let ?cs = "map n specs"
  from D(3) i have il: "i < length ?cs" by simp
  have idx: "index_of (Tags ! i) Tags = Inr i"
    using D(1) i by (rule index_of_nth)
  have cont: "contains_v (Tags ! i) Tags"
    using i by (simp add: contains_v_iff)
  have e: "array_at (ends b) i = Inr (sum_list (take (Suc i) ?cs))"
    using il by (simp add: D(4) array_at_def length_running_totals running_totals_nth)
  have s: "(if i = 0 then Inr 0 else array_at (ends b) (i - 1)) = Inr (sum_list (take i ?cs))"
  proof (cases i)
    case 0
    then show ?thesis by simp
  next
    case (Suc j)
    with il have "j < length ?cs" by simp
    then show ?thesis
      using Suc by (simp add: D(4) array_at_def length_running_totals running_totals_nth)
  qed
  have "sum_list (take (Suc i) ?cs) - sum_list (take i ?cs) = n (specs ! i)"
    using il by (simp add: sum_list_take_Suc)
  then show ?thesis
    by (simp add: get_def cont idx e s)
qed

subsection \<open>The boundary table as numbers\<close>

lemma running_totals_mod:
  "a mod 2 ^ LENGTH('w) = unat cur \<Longrightarrow>
   map unat (running_totals (cur :: 'w::len word) cs)
     = map (\<lambda>x. x mod 2 ^ LENGTH('w)) (spec_boundaries a (map unat cs))"
proof (induction cs arbitrary: a cur)
  case Nil
  then show ?case by simp
next
  case (Cons c cs)
  have "unat (cur + c) = (unat cur + unat c) mod 2 ^ LENGTH('w)"
    by (simp add: unat_word_ariths)
  also have "\<dots> = (a mod 2 ^ LENGTH('w) + unat c) mod 2 ^ LENGTH('w)"
    by (simp add: Cons.prems)
  also have "\<dots> = (a + unat c) mod 2 ^ LENGTH('w)"
    by (rule mod_add_left_eq)
  finally have step: "(a + unat c) mod 2 ^ LENGTH('w) = unat (cur + c)" by simp
  from Cons.IH [OF step] step show ?case by simp
qed

lemma spec_boundaries_bound:
  "x \<in> set (spec_boundaries a Ls) \<Longrightarrow> x \<le> a + sum_list Ls"
proof (induction Ls arbitrary: a)
  case Nil
  then show ?case by simp
next
  case (Cons L Ls)
  from Cons.prems have "x = a + L \<or> x \<in> set (spec_boundaries (a + L) Ls)" by simp
  then show ?case
  proof
    assume "x = a + L"
    then show ?thesis by simp
  next
    assume "x \<in> set (spec_boundaries (a + L) Ls)"
    from Cons.IH [OF this] show ?thesis by simp
  qed
qed

lemma running_totals_exact:
  assumes "sum_list (map unat (cs :: 'w::len word list)) < 2 ^ LENGTH('w)"
  shows "map unat (running_totals 0 cs) = spec_boundaries 0 (map unat cs)"
proof -
  have "map unat (running_totals (0 :: 'w word) cs)
      = map (\<lambda>x. x mod 2 ^ LENGTH('w)) (spec_boundaries 0 (map unat cs))"
    by (rule running_totals_mod) simp
  also have "\<dots> = map (\<lambda>x. x) (spec_boundaries 0 (map unat cs))"
  proof (rule map_cong [OF refl])
    fix x assume "x \<in> set (spec_boundaries 0 (map unat cs))"
    then have "x \<le> sum_list (map unat cs)"
      using spec_boundaries_bound [of x 0 "map unat cs"] by simp
    with assms show "x mod 2 ^ LENGTH('w) = x" by simp
  qed
  finally show ?thesis by simp
qed

lemma last_running_totals:
  "cs \<noteq> [] \<Longrightarrow> last (running_totals 0 cs) = sum_list cs"
proof -
  assume ne: "cs \<noteq> []"
  then have "running_totals 0 cs \<noteq> []"
    using length_running_totals [of 0 cs] by (metis length_0_conv)
  then have "last (running_totals 0 cs) = running_totals 0 cs ! (length cs - 1)"
    by (simp add: last_conv_nth length_running_totals)
  also have "\<dots> = sum_list (take (Suc (length cs - 1)) cs)"
    using ne by (simp add: running_totals_nth)
  finally show ?thesis using ne by simp
qed

lemma lengths_alt: "lengths specs = map unat (map n specs)"
  by (simp add: lengths_def comp_def)

lemma make_unique_ok:
  "unat count \<le> avail h \<Longrightarrow>
   make_unique h count =
     Inr (next_addr h,
          h\<lparr>cells := (cells h)(next_addr h \<mapsto> replicate (unat count) 0),
            next_addr := Suc (next_addr h),
            avail := avail h - unat count\<rparr>)"
  by (simp add: make_unique_def)

lemma decreasing_table_exists:
  "\<exists>(wrapped :: (bool, 'w::len) SegmentSize list) b (g :: 'u::zero heap) g'.
      Buffer_ctor (map tag wrapped) wrapped g = (Inr b, g')
      \<and> \<not> sorted (ends b) \<and> 2 ^ LENGTH('w) \<le> sum_list (lengths wrapped)"
proof -
  let ?wrapped = "[Segment False (- 1), Segment True (- 1)] :: (bool, 'w) SegmentSize list"
  let ?g = "store0 (2 ^ LENGTH('w)) :: 'u heap"
  have d: "distinct (map tag ?wrapped)" by (simp add: Segment_def)
  have av: "avail ?g = 2 ^ LENGTH('w)" by (simp add: store0_def)
  have "unat (sum_list (map n ?wrapped)) \<le> avail ?g"
    unfolding av by (rule less_imp_le [OF unsigned_less])
  from make_unique_ok [OF this] Buffer_ctor_ok [OF d refl, of ?g]
  obtain g' where c: "Buffer_ctor (map tag ?wrapped) ?wrapped ?g
      = (Inr \<lparr>ends = running_totals 0 (map n ?wrapped), data = Some (next_addr ?g)\<rparr>, g')"
    by simp
  have "(- 1 :: 'w word) \<noteq> - 2"
    by simp
  then have "\<not> (- 1 :: 'w word) \<le> - 2"
    by (metis word_order.extremum_unique)
  then have ns: "\<not> sorted (running_totals 0 (map n ?wrapped))"
    by (simp add: Segment_def)
  have "(2 :: nat) \<le> 2 ^ LENGTH('w)"
    using self_le_power [of "2 :: nat" "LENGTH('w)"] by simp
  then have "(2 :: nat) ^ LENGTH('w) \<le> (2 ^ LENGTH('w) - 1) + (2 ^ LENGTH('w) - 1)"
    by arith
  then have "2 ^ LENGTH('w) \<le> sum_list (lengths ?wrapped)"
    by (simp add: lengths_def Segment_def unsigned_minus_1_eq_mask mask_eq_exp_minus_1)
  with c ns show ?thesis
    by (metis Buffer.select_convs(1))
qed

subsection \<open>Views and the store\<close>

text \<open>The views of a constructed buffer, when the lengths do not wrap.\<close>

lemma get_ctor_exact:
  assumes c: "Buffer_ctor Tags specs h = (Inr b, h')"
    and small: "sum_list (lengths specs) < 2 ^ LENGTH('w)"
    and i: "i < length Tags"
  shows "get Tags b (Tags ! i) =
           Inr \<lparr>span_data = data b,
                span_offset = sum_list (take i (lengths specs)),
                span_size = (n (specs ! i) :: 'w::len word)\<rparr>"
proof -
  from small have "sum_list (map unat (map n specs)) < 2 ^ LENGTH('w)"
    by (simp only: lengths_alt)
  then have "unat (sum_list (take i (map n specs))) = sum_list (take i (lengths specs))"
    by (simp only: unat_sum_list_take lengths_alt)
  with get_ctor [OF c i] show ?thesis by simp
qed

lemma span_range_segment:
  assumes "i < length specs"
  shows "span_range \<lparr>span_data = p, span_offset = sum_list (take i (lengths specs)),
                     span_size = n (specs ! i)\<rparr>
         = {sum_list (take i (lengths specs)) ..< sum_list (take (Suc i) (lengths specs))}"
proof -
  from assms have "i < length (lengths specs)" by (simp add: lengths_def)
  from sum_list_take_Suc [OF this] assms show ?thesis
    by (simp add: span_range_def lengths_def)
qed

lemma segment_ranges_disjoint:
  assumes "i < j"
  shows "{sum_list (take i Ls) ..< sum_list (take (Suc i) Ls)}
         \<inter> {sum_list (take j Ls) ..< sum_list (take (Suc j) (Ls :: nat list))} = {}"
proof -
  from assms have "sum_list (take (Suc i) Ls) \<le> sum_list (take j Ls)"
    by (intro sum_list_take_mono) simp
  then show ?thesis by auto
qed

lemma owns_ctor:
  assumes c: "Buffer_ctor Tags specs h = (Inr b, h')"
  shows "owns h' b (unat (sum_list (map n specs)))"
  using Buffer_ctor_InrD(6,7) [OF c] by (simp add: owns_def)

lemma span_write_read:
  "span_write g v k x = Some g' \<Longrightarrow> span_read g' v k = Some x"
  by (auto simp: span_write_def span_read_def split: if_splits option.splits)

lemma span_write_frame:
  assumes w: "span_write g v k x = Some g'"
    and same: "span_data u = span_data v"
    and apart: "span_range u \<inter> span_range v = {}"
  shows "span_read g' u k' = span_read g u k'"
proof (cases "k' < span_size u")
  case False
  then show ?thesis by (simp add: span_read_def)
next
  case True
  from w obtain a blk where k: "k < span_size v" and a: "span_data v = Some a"
    and blk: "cells g a = Some blk" and inb: "span_offset v + unat k < length blk"
    and g': "g' = g\<lparr>cells := (cells g)(a \<mapsto> blk[span_offset v + unat k := x])\<rparr>"
    by (auto simp: span_write_def split: if_splits option.splits)
  from k have "span_offset v + unat k \<in> span_range v"
    by (simp add: span_range_def word_less_nat_alt)
  moreover from True have "span_offset u + unat k' \<in> span_range u"
    by (simp add: span_range_def word_less_nat_alt)
  ultimately have "span_offset u + unat k' \<noteq> span_offset v + unat k"
    using apart by auto
  then show ?thesis
    using True same a blk by (simp add: span_read_def g')
qed

text \<open>Move assignment between two objects, and of an object to itself.\<close>

lemma Buffer_move_assign_distinct:
  assumes "dst \<noteq> other"
  shows "Buffer_move_assign h objs dst other =
    (objs(dst := \<lparr>ends = ends (objs other), data = data (objs other)\<rparr>,
          other := (objs other)\<lparr>data := None\<rparr>),
     unique_ptr_delete h (data (objs dst)))"
proof -
  have r: "(objs dst)\<lparr>ends := ends (objs other), data := data (objs other)\<rparr>
      = \<lparr>ends = ends (objs other), data = data (objs other)\<rparr>"
    by (cases "objs dst") simp
  from assms show ?thesis
    by (simp add: Buffer_move_assign_def Let_def fun_upd_twist) (simp only: r)
qed

lemma Buffer_move_assign_self:
  "Buffer_move_assign h objs a a = (objs, h)"
  by (simp add: Buffer_move_assign_def Let_def unique_ptr_delete_def)

lemma get_moved_from:
  "get Tags (src\<lparr>data := None\<rparr>) Tag = map_sum id (span_data_update (\<lambda>_. None)) (get Tags src Tag)"
  by (simp add: get_def split: sum.splits)

subsection \<open>Evaluation on concrete buffers\<close>

lemma pair_fst_snd: "fst r = a \<Longrightarrow> r = (a, snd r)"
  by auto

lemmas eval_defs = Buffer_ctor_def UniqueTags_def add_def array_set_def last_end_def array_at_def
  make_unique_def Segment_def store0_def total_size_def get_def lengths_def

subsection \<open>Rejected configurations and rejected names\<close>

text \<open>
  Claim C6. A configuration error is rejected before any allocation is attempted: when
  the declared names are not pairwise distinct, or the tags of the supplied
  specifications are not the declared names in the declared order (another name, another
  count or another order), the constructor is rejected by its constraints, no buffer
  results and the store is the one before the call. The same holds for
  \<open>MakeSegmentedBuffer\<close> when two specifications carry the same name.
\<close>

theorem configuration_error_rejected:
  "(\<not> distinct Tags \<or> map tag specs \<noteq> Tags \<longrightarrow>
      Buffer_ctor Tags specs h = (Inl ConstraintsNotSatisfied, h))
   \<and> (\<not> distinct (map tag specs) \<longrightarrow>
      MakeSegmentedBuffer specs h = (Inl ConstraintsNotSatisfied, h))"
  using Buffer_ctor_rejects [of Tags specs h] Buffer_ctor_rejects [of "map tag specs" specs h]
  by (simp add: MakeSegmentedBuffer_def)

theorem configuration_error_rejected_witness:
  "Buffer_ctor [''Foo'', ''Foo''] [Segment ''Foo'' (10 :: 64 word), Segment ''Foo'' 20]
       (store0 100 :: int heap) = (Inl ConstraintsNotSatisfied, store0 100)
   \<and> Buffer_ctor [''Foo'', ''Bar''] [Segment ''Bar'' (20 :: 64 word), Segment ''Foo'' 10]
       (store0 100 :: int heap) = (Inl ConstraintsNotSatisfied, store0 100)
   \<and> Buffer_ctor [''Foo'', ''Bar''] [Segment ''Foo'' (10 :: 64 word)]
       (store0 100 :: int heap) = (Inl ConstraintsNotSatisfied, store0 100)
   \<and> Buffer_ctor [''Foo'', ''Bar''] [Segment ''Foo'' (10 :: 64 word), Segment ''Baz'' 20]
       (store0 100 :: int heap) = (Inl ConstraintsNotSatisfied, store0 100)
   \<and> MakeSegmentedBuffer [Segment ''Foo'' (10 :: 64 word), Segment ''Foo'' 20]
       (store0 100 :: int heap) = (Inl ConstraintsNotSatisfied, store0 100)"
  using
    configuration_error_rejected [of "[''Foo'', ''Foo'']"
      "[Segment ''Foo'' (10 :: 64 word), Segment ''Foo'' 20]" "store0 100 :: int heap"]
    configuration_error_rejected [of "[''Foo'', ''Bar'']"
      "[Segment ''Bar'' (20 :: 64 word), Segment ''Foo'' 10]" "store0 100 :: int heap"]
    configuration_error_rejected [of "[''Foo'', ''Bar'']"
      "[Segment ''Foo'' (10 :: 64 word)]" "store0 100 :: int heap"]
    configuration_error_rejected [of "[''Foo'', ''Bar'']"
      "[Segment ''Foo'' (10 :: 64 word), Segment ''Baz'' 20]" "store0 100 :: int heap"]
  by (simp add: Segment_def)

text \<open>
  Claim C7. A view for a name outside the declared set is rejected by the constraint of
  \<open>get\<close>, whatever the buffer: no view is returned.
\<close>

theorem undeclared_name_rejected:
  "Tag \<notin> set Tags \<Longrightarrow> get Tags b Tag = Inl ConstraintsNotSatisfied"
  by (simp add: get_def contains_v_iff)

theorem undeclared_name_rejected_witness:
  "''Baz'' \<notin> set [''Foo'', ''Bar'']
   \<and> get [''Foo'', ''Bar''] \<lparr>ends = [10, 30 :: 64 word], data = Some 0\<rparr> ''Baz''
       = Inl ConstraintsNotSatisfied"
proof -
  have out: "''Baz'' \<notin> set [''Foo'', ''Bar'']" by simp
  show ?thesis
    using out undeclared_name_rejected [OF out, of "\<lparr>ends = [10, 30 :: 64 word], data = Some 0\<rparr>"]
    by simp
qed

subsection \<open>The boundary table and the total size\<close>

text \<open>
  Claim C1, as amended. For every constructed buffer, \<open>total_size()\<close> returns the last
  boundary, and 0 when there is no segment. When the requested lengths \<open>L_1..L_N\<close> sum
  to less than \<open>2^w\<close>, that is to at most the largest \<open>std::size_t\<close>, the boundary table
  is the sequence of prefix sums of the lengths in declaration order, and \<open>total_size()\<close>
  is the sum of all \<open>L_i\<close>.
\<close>

theorem total_size_is_sum:
  assumes "Buffer_ctor Tags specs h = (Inr b, h')"
  shows "total_size Tags b = Inr (if length Tags = 0 then 0 else last (ends b))
       \<and> (sum_list (lengths specs) < 2 ^ LENGTH('w) \<longrightarrow>
            map unat (ends b) = spec_boundaries 0 (lengths specs)
            \<and> (\<exists>t :: 'w::len word. total_size Tags b = Inr t \<and> unat t = sum_list (lengths specs)))"
proof -
  note D = Buffer_ctor_InrD [OF assms]
  note ts = total_size_ctor [OF assms]
  let ?cs = "map n specs"
  have "sum_list ?cs = (if length Tags = 0 then 0 else last (ends b))"
  proof (cases "length Tags = 0")
    case True
    with D(3) show ?thesis by simp
  next
    case False
    with D(3) have "?cs \<noteq> []" by auto
    then show ?thesis using False by (simp add: D(4) last_running_totals)
  qed
  then have first: "total_size Tags b = Inr (if length Tags = 0 then 0 else last (ends b))"
    using ts by simp
  have second: "map unat (ends b) = spec_boundaries 0 (lengths specs)
      \<and> (\<exists>t :: 'w word. total_size Tags b = Inr t \<and> unat t = sum_list (lengths specs))"
    if small: "sum_list (lengths specs) < 2 ^ LENGTH('w)"
  proof -
    from small have s: "sum_list (map unat ?cs) < 2 ^ LENGTH('w)"
      by (simp only: lengths_alt)
    have "map unat (ends b) = spec_boundaries 0 (lengths specs)"
      using running_totals_exact [OF s] by (simp only: D(4) lengths_alt)
    moreover have "unat (sum_list ?cs) = sum_list (lengths specs)"
      using s by (simp only: unat_sum_list lengths_alt mod_less)
    ultimately show ?thesis using ts by simp
  qed
  from first second show ?thesis by blast
qed

theorem total_size_is_sum_witness:
  "fst (Buffer_ctor [''Foo'', ''Bar''] [Segment ''Foo'' (10 :: 64 word), Segment ''Bar'' 20]
          (store0 100 :: int heap)) = Inr \<lparr>ends = [10, 30], data = Some 0\<rparr>
   \<and> sum_list (lengths [Segment ''Foo'' (10 :: 64 word), Segment ''Bar'' 20]) < 2 ^ LENGTH(64)
   \<and> total_size [''Foo'', ''Bar''] \<lparr>ends = [10, 30 :: 64 word], data = Some 0\<rparr> = Inr 30
   \<and> map unat [10, 30 :: 64 word] = spec_boundaries 0 [10, 20]"
proof -
  let ?r = "Buffer_ctor [''Foo'', ''Bar''] [Segment ''Foo'' (10 :: 64 word), Segment ''Bar'' 20]
              (store0 100 :: int heap)"
  have f: "fst ?r = Inr \<lparr>ends = [10, 30], data = Some 0\<rparr>"
    by (simp add: eval_defs)
  have s: "sum_list (lengths [Segment ''Foo'' (10 :: 64 word), Segment ''Bar'' 20]) < 2 ^ LENGTH(64)"
    by (simp add: eval_defs)
  from total_size_is_sum [OF pair_fst_snd [OF f]] f s show ?thesis
    by (simp add: eval_defs)
qed

text \<open>
  Without the bound the claim fails: two segments of \<open>2^63\<close> elements each, with a
  64-bit \<open>std::size_t\<close>, give the table \<open>[2^63, 0]\<close> and the total size 0, where the
  prefix sums are \<open>[2^63, 2^64]\<close> and the lengths sum to \<open>2^64\<close>.
\<close>

theorem total_size_is_sum_counterexample:
  "fst (Buffer_ctor [''Foo'', ''Bar'']
          [Segment ''Foo'' (9223372036854775808 :: 64 word), Segment ''Bar'' 9223372036854775808]
          (store0 0 :: int heap))
     = Inr \<lparr>ends = [9223372036854775808, 0], data = Some 0\<rparr>
   \<and> total_size [''Foo'', ''Bar''] \<lparr>ends = [9223372036854775808, 0 :: 64 word], data = Some 0\<rparr>
     = Inr 0
   \<and> sum_list (lengths [Segment ''Foo'' (9223372036854775808 :: 64 word),
                         Segment ''Bar'' 9223372036854775808]) = 18446744073709551616
   \<and> spec_boundaries 0 (lengths [Segment ''Foo'' (9223372036854775808 :: 64 word),
                                  Segment ''Bar'' 9223372036854775808])
     = [9223372036854775808, 18446744073709551616]"
  by (simp add: eval_defs)

text \<open>
  Claim C10. The boundaries and the total size are computed modulo \<open>2^w\<close>, and nothing
  checks for overflow: whenever the names are distinct, the specifications match them and
  the store can serve the wrapped total, construction succeeds, each boundary is the
  prefix sum modulo \<open>2^w\<close> and \<open>total_size()\<close> is the sum of the lengths modulo \<open>2^w\<close>.
  For every width there is a buffer whose lengths sum past \<open>2^w\<close> and whose boundary
  table is not non-decreasing.
\<close>

theorem boundaries_wrap_around:
  assumes "distinct Tags" and "map tag specs = Tags"
    and "sum_list (lengths specs) mod 2 ^ LENGTH('w) \<le> avail h"
  shows "(\<exists>b h'. Buffer_ctor Tags (specs :: ('t, 'w::len) SegmentSize list) (h :: 'u::zero heap)
                    = (Inr b, h')
            \<and> map unat (ends b)
                = map (\<lambda>x. x mod 2 ^ LENGTH('w)) (spec_boundaries 0 (lengths specs))
            \<and> (\<exists>t. total_size Tags b = Inr t
                    \<and> unat t = sum_list (lengths specs) mod 2 ^ LENGTH('w)))
       \<and> (\<exists>(wrapped :: (bool, 'w) SegmentSize list) b (g :: 'u heap) g'.
              Buffer_ctor (map tag wrapped) wrapped g = (Inr b, g')
              \<and> \<not> sorted (ends b) \<and> 2 ^ LENGTH('w) \<le> sum_list (lengths wrapped))"
proof -
  let ?cs = "map n specs"
  have u: "unat (sum_list ?cs) = sum_list (lengths specs) mod 2 ^ LENGTH('w)"
    by (simp only: unat_sum_list lengths_alt)
  with assms(3) have "unat (sum_list ?cs) \<le> avail h" by simp
  from make_unique_ok [OF this] Buffer_ctor_ok [OF assms(1,2), of h]
  obtain h' where c: "Buffer_ctor Tags specs h
      = (Inr \<lparr>ends = running_totals 0 ?cs, data = Some (next_addr h)\<rparr>, h')"
    by simp
  let ?b = "\<lparr>ends = running_totals 0 ?cs, data = Some (next_addr h)\<rparr>"
  have "map unat (running_totals 0 ?cs)
      = map (\<lambda>x. x mod 2 ^ LENGTH('w)) (spec_boundaries 0 (map unat ?cs))"
    by (rule running_totals_mod) simp
  then have e: "map unat (ends ?b)
      = map (\<lambda>x. x mod 2 ^ LENGTH('w)) (spec_boundaries 0 (lengths specs))"
    by (simp only: lengths_alt Buffer.select_convs)
  have t: "total_size Tags ?b = Inr (sum_list ?cs)"
    by (rule total_size_ctor [OF c])
  from c e t u have "\<exists>b h'. Buffer_ctor Tags specs h = (Inr b, h')
            \<and> map unat (ends b)
                = map (\<lambda>x. x mod 2 ^ LENGTH('w)) (spec_boundaries 0 (lengths specs))
            \<and> (\<exists>t. total_size Tags b = Inr t
                    \<and> unat t = sum_list (lengths specs) mod 2 ^ LENGTH('w))"
    by blast
  with decreasing_table_exists [where ?'w = 'w and ?'u = 'u] show ?thesis
    by blast
qed

theorem boundaries_wrap_around_witness:
  "distinct [''Foo'', ''Bar'', ''Baz'']
   \<and> sum_list (lengths [Segment ''Foo'' (9223372036854775808 :: 64 word),
                         Segment ''Bar'' 9223372036854775808, Segment ''Baz'' 5])
       = 18446744073709551621
   \<and> (\<exists>b h'. Buffer_ctor [''Foo'', ''Bar'', ''Baz'']
                [Segment ''Foo'' (9223372036854775808 :: 64 word),
                 Segment ''Bar'' 9223372036854775808, Segment ''Baz'' 5]
                (store0 5 :: int heap) = (Inr b, h')
         \<and> map unat (ends b) = [9223372036854775808, 0, 5]
         \<and> (\<exists>t. total_size [''Foo'', ''Bar'', ''Baz''] b = Inr t \<and> unat t = 5))"
proof -
  let ?specs = "[Segment ''Foo'' (9223372036854775808 :: 64 word),
                 Segment ''Bar'' 9223372036854775808, Segment ''Baz'' 5]"
  have d: "distinct [''Foo'', ''Bar'', ''Baz'']" by simp
  have m: "map tag ?specs = [''Foo'', ''Bar'', ''Baz'']" by (simp add: Segment_def)
  have s: "sum_list (lengths ?specs) = 18446744073709551621"
    by (simp add: lengths_def Segment_def)
  have a: "sum_list (lengths ?specs) mod 2 ^ LENGTH(64) \<le> avail (store0 5 :: int heap)"
    by (simp add: s store0_def)
  have sb: "map (\<lambda>x. x mod 2 ^ LENGTH(64)) (spec_boundaries 0 (lengths ?specs))
      = [9223372036854775808, 0, 5]"
    by (simp add: lengths_def Segment_def)
  from boundaries_wrap_around [OF d m a] d s show ?thesis
    by (simp only: sb s) simp
qed

subsection \<open>Lookup\<close>

text \<open>
  Claim C3, as amended. For every constructed buffer and the name at position \<open>i\<close> of the
  declaration order, \<open>index_of\<close> resolves the name to \<open>i\<close> and \<open>get\<close> returns a view into
  the one array of the buffer whose size is \<open>boundary[i]\<close> minus its start, the start
  being 0 when \<open>i = 0\<close> and \<open>boundary[i - 1]\<close> otherwise. When the requested lengths sum
  to less than \<open>2^w\<close> (at most the largest \<open>std::size_t\<close>), the view starts at that start,
  ends at \<open>boundary[i]\<close> as a number, covers exactly the positions from start to end, and
  lies inside the array, which has \<open>total_size()\<close> elements. (That the position is found
  by the compiler and not by a search at run time is how \<open>index_of\<close> is used, and has no
  statement here.)
\<close>

theorem get_returns_declared_range:
  assumes c: "Buffer_ctor Tags specs h = (Inr b, h')" and i: "i < length Tags"
  shows "index_of (Tags ! i) Tags = Inr i
       \<and> (\<exists>v. get Tags b (Tags ! i) = Inr v
              \<and> span_data v = data b \<and> data b = Some (next_addr h)
              \<and> span_size v = ends b ! i - (if i = 0 then 0 else ends b ! (i - 1))
              \<and> (sum_list (lengths specs) < 2 ^ LENGTH('w) \<longrightarrow>
                    span_offset v = unat (if i = 0 then 0 else ends b ! (i - 1))
                    \<and> span_offset v + unat (span_size v) = unat (ends b ! i :: 'w::len word)
                    \<and> span_range v
                        = {unat (if i = 0 then 0 else ends b ! (i - 1)) ..< unat (ends b ! i)}
                    \<and> (\<exists>blk t. cells h' (next_addr h) = Some blk
                          \<and> total_size Tags b = Inr t \<and> length blk = unat t
                          \<and> span_range v \<subseteq> {0 ..< length blk})))"
proof -
  note D = Buffer_ctor_InrD [OF c]
  let ?cs = "map n specs"
  let ?L = "lengths specs"
  let ?start = "if i = 0 then 0 else ends b ! (i - 1)"
  let ?v = "\<lparr>span_data = data b, span_offset = unat (sum_list (take i ?cs)),
             span_size = n (specs ! i)\<rparr>"
  from D(3) i have il: "i < length ?cs" and isp: "i < length specs" by simp_all
  have idx: "index_of (Tags ! i) Tags = Inr i"
    using D(1) i by (rule index_of_nth)
  have g: "get Tags b (Tags ! i) = Inr ?v"
    by (rule get_ctor [OF c i])
  have e: "ends b ! i = sum_list (take (Suc i) ?cs)"
    using il by (simp add: D(4) running_totals_nth)
  have s: "?start = sum_list (take i ?cs)"
  proof (cases i)
    case 0
    then show ?thesis by simp
  next
    case (Suc j)
    with il have "j < length ?cs" by simp
    then show ?thesis using Suc by (simp add: D(4) running_totals_nth)
  qed
  have sz: "span_size ?v = ends b ! i - ?start"
    using il by (simp only: e s sum_list_take_Suc) simp
  have bounded: "span_offset ?v = unat ?start
      \<and> span_offset ?v + unat (span_size ?v) = unat (ends b ! i)
      \<and> span_range ?v = {unat ?start ..< unat (ends b ! i)}
      \<and> (\<exists>blk t. cells h' (next_addr h) = Some blk
            \<and> total_size Tags b = Inr t \<and> length blk = unat t
            \<and> span_range ?v \<subseteq> {0 ..< length blk})"
    if small: "sum_list ?L < 2 ^ LENGTH('w)"
  proof -
    from small have small': "sum_list (map unat ?cs) < 2 ^ LENGTH('w)"
      by (simp only: lengths_alt)
    have us: "unat (sum_list (take k ?cs)) = sum_list (take k ?L)" for k
      using unat_sum_list_take [OF small', of k] by (simp only: lengths_alt)
    have ut: "unat (sum_list ?cs) = sum_list ?L"
      using small by (simp only: unat_sum_list lengths_alt mod_less)
    have v_eq: "?v = \<lparr>span_data = data b, span_offset = sum_list (take i ?L),
                      span_size = n (specs ! i)\<rparr>"
      by (simp only: us)
    have "span_range \<lparr>span_data = data b, span_offset = sum_list (take i ?L),
                      span_size = n (specs ! i)\<rparr>
        = {sum_list (take i ?L) ..< sum_list (take (Suc i) ?L)}"
      by (rule span_range_segment [OF isp])
    then have rng: "span_range ?v = {sum_list (take i ?L) ..< sum_list (take (Suc i) ?L)}"
      by (simp only: v_eq)
    have 1: "span_offset ?v = unat ?start"
      by (simp only: s) simp
    have "{unat ?start ..< unat (ends b ! i)}
        = {sum_list (take i ?L) ..< sum_list (take (Suc i) ?L)}"
      by (simp only: e s us)
    with rng have 3: "span_range ?v = {unat ?start ..< unat (ends b ! i)}"
      by simp
    have Lnth: "?L ! i = unat (n (specs ! i))"
      using isp by (simp add: lengths_def)
    have "sum_list (take (Suc i) ?L) = sum_list (take i ?L) + ?L ! i"
      using isp by (simp add: sum_list_take_Suc lengths_def)
    then have 2: "span_offset ?v + unat (span_size ?v) = unat (ends b ! i)"
      by (simp only: span.select_convs e us Lnth)
    obtain blk where blk: "cells h' (next_addr h) = Some blk"
      and lb: "length blk = unat (sum_list ?cs)"
      by (simp add: D(7))
    have "sum_list (take (Suc i) ?L) \<le> sum_list ?L" by (rule sum_list_take_le)
    then have "{sum_list (take i ?L) ..< sum_list (take (Suc i) ?L)} \<subseteq> {0 ..< sum_list ?L}"
      by auto
    then have sub: "span_range ?v \<subseteq> {0 ..< length blk}"
      by (simp only: rng lb ut)
    from blk lb sub total_size_ctor [OF c]
    have "\<exists>blk t. cells h' (next_addr h) = Some blk
            \<and> total_size Tags b = Inr t \<and> length blk = unat t
            \<and> span_range ?v \<subseteq> {0 ..< length blk}"
      by blast
    with 1 2 3 show ?thesis by blast
  qed
  have sd: "span_data ?v = data b" by simp
  from bounded have imp: "sum_list ?L < 2 ^ LENGTH('w) \<longrightarrow>
      span_offset ?v = unat ?start
      \<and> span_offset ?v + unat (span_size ?v) = unat (ends b ! i)
      \<and> span_range ?v = {unat ?start ..< unat (ends b ! i)}
      \<and> (\<exists>blk t. cells h' (next_addr h) = Some blk
            \<and> total_size Tags b = Inr t \<and> length blk = unat t
            \<and> span_range ?v \<subseteq> {0 ..< length blk})"
    by (rule impI)
  show ?thesis
    by (intro conjI exI [of _ ?v] idx g sd D(6) sz imp)
qed

theorem get_returns_declared_range_witness:
  "fst (Buffer_ctor [''Foo'', ''Bar''] [Segment ''Foo'' (10 :: 64 word), Segment ''Bar'' 20]
          (store0 100 :: int heap)) = Inr \<lparr>ends = [10, 30], data = Some 0\<rparr>
   \<and> sum_list (lengths [Segment ''Foo'' (10 :: 64 word), Segment ''Bar'' 20]) < 2 ^ LENGTH(64)
   \<and> index_of ''Bar'' [''Foo'', ''Bar''] = Inr 1
   \<and> get [''Foo'', ''Bar''] \<lparr>ends = [10, 30 :: 64 word], data = Some 0\<rparr> ''Bar''
       = Inr \<lparr>span_data = Some 0, span_offset = 10, span_size = 20\<rparr>
   \<and> span_range \<lparr>span_data = Some 0, span_offset = 10, span_size = 20 :: 64 word\<rparr> = {10 ..< 30}
   \<and> (\<exists>blk. cells (snd (Buffer_ctor [''Foo'', ''Bar'']
                            [Segment ''Foo'' (10 :: 64 word), Segment ''Bar'' 20]
                            (store0 100 :: int heap))) 0 = Some blk
          \<and> length blk = 30
          \<and> span_range \<lparr>span_data = Some 0, span_offset = 10, span_size = 20 :: 64 word\<rparr>
              \<subseteq> {0 ..< length blk})"
proof -
  let ?specs = "[Segment ''Foo'' (10 :: 64 word), Segment ''Bar'' 20]"
  let ?r = "Buffer_ctor [''Foo'', ''Bar''] ?specs (store0 100 :: int heap)"
  let ?b = "\<lparr>ends = [10, 30 :: 64 word], data = Some 0\<rparr>"
  let ?bar = "\<lparr>span_data = Some 0, span_offset = 10, span_size = 20 :: 64 word\<rparr>"
  have f: "fst ?r = Inr ?b"
    by (simp add: eval_defs)
  have s: "sum_list (lengths ?specs) < 2 ^ LENGTH(64)"
    by (simp add: eval_defs)
  have i: "1 < length [''Foo'', ''Bar'']" by simp
  have gb: "get [''Foo'', ''Bar''] ?b ''Bar'' = Inr ?bar"
    by (simp add: eval_defs)
  have ts: "total_size [''Foo'', ''Bar''] ?b = Inr 30"
    by (simp add: eval_defs)
  have na: "next_addr (store0 100 :: int heap) = 0"
    by (simp add: store0_def)
  note parts = get_returns_declared_range [OF pair_fst_snd [OF f] i]
  from parts have idx: "index_of ''Bar'' [''Foo'', ''Bar''] = Inr 1"
    by simp
  from parts obtain v where v: "get [''Foo'', ''Bar''] ?b ([''Foo'', ''Bar''] ! 1) = Inr v"
    and bounded: "sum_list (lengths ?specs) < 2 ^ LENGTH(64) \<longrightarrow>
        span_offset v = unat (if (1 :: nat) = 0 then 0 else ends ?b ! (1 - 1))
        \<and> span_offset v + unat (span_size v) = unat (ends ?b ! 1)
        \<and> span_range v = {unat (if (1 :: nat) = 0 then 0 else ends ?b ! (1 - 1)) ..< unat (ends ?b ! 1)}
        \<and> (\<exists>blk t. cells (snd ?r) (next_addr (store0 100 :: int heap)) = Some blk
              \<and> total_size [''Foo'', ''Bar''] ?b = Inr t \<and> length blk = unat t
              \<and> span_range v \<subseteq> {0 ..< length blk})"
    by (elim conjE exE)
  from v gb have v_eq: "v = ?bar" by simp
  from bounded [rule_format, OF s] have rng: "span_range ?bar = {10 ..< 30}"
    by (simp add: v_eq)
  from bounded [rule_format, OF s] obtain blk t where "cells (snd ?r) 0 = Some blk"
    and "total_size [''Foo'', ''Bar''] ?b = Inr t" and "length blk = unat t"
    and "span_range ?bar \<subseteq> {0 ..< length blk}"
    unfolding v_eq na by (elim conjE exE)
  with ts have "\<exists>blk. cells (snd ?r) 0 = Some blk \<and> length blk = 30
      \<and> span_range ?bar \<subseteq> {0 ..< length blk}"
    by auto
  with f s idx gb rng show ?thesis by (intro conjI)
qed

text \<open>
  Without the bound the view is not a bounded view of the storage: with a 64-bit
  \<open>std::size_t\<close> and the lengths \<open>2^63\<close>, \<open>2^63\<close> and 5 the array has 5 elements, the view
  of the first name covers position 5 and beyond, where no read is defined, and the view
  of the second name has \<open>2^63\<close> elements although its boundaries are the start \<open>2^63\<close>
  and the end 0.
\<close>

theorem get_returns_declared_range_counterexample:
  "fst (Buffer_ctor [''Foo'', ''Bar'', ''Baz'']
          [Segment ''Foo'' (9223372036854775808 :: 64 word),
           Segment ''Bar'' 9223372036854775808, Segment ''Baz'' 5]
          (store0 5 :: int heap))
     = Inr \<lparr>ends = [9223372036854775808, 0, 5], data = Some 0\<rparr>
   \<and> cells (snd (Buffer_ctor [''Foo'', ''Bar'', ''Baz'']
          [Segment ''Foo'' (9223372036854775808 :: 64 word),
           Segment ''Bar'' 9223372036854775808, Segment ''Baz'' 5]
          (store0 5 :: int heap))) 0
     = Some [0, 0, 0, 0, 0]
   \<and> get [''Foo'', ''Bar'', ''Baz''] \<lparr>ends = [9223372036854775808, 0, 5 :: 64 word], data = Some 0\<rparr> ''Foo''
     = Inr \<lparr>span_data = Some 0, span_offset = 0, span_size = 9223372036854775808\<rparr>
   \<and> 5 \<in> span_range \<lparr>span_data = Some 0, span_offset = 0, span_size = 9223372036854775808 :: 64 word\<rparr>
   \<and> 5 \<notin> {0 ..< length [0, 0, 0, 0, 0 :: int]}
   \<and> span_read \<lparr>cells = [0 \<mapsto> [0, 0, 0, 0, 0 :: int]], next_addr = 1, avail = 0\<rparr>
        \<lparr>span_data = Some 0, span_offset = 0, span_size = 9223372036854775808 :: 64 word\<rparr> 5
     = None
   \<and> map_sum id span_size
        (get [''Foo'', ''Bar'', ''Baz''] \<lparr>ends = [9223372036854775808, 0, 5 :: 64 word], data = Some 0\<rparr> ''Bar'')
     = Inr 9223372036854775808
   \<and> unat ([9223372036854775808, 0, 5 :: 64 word] ! 0) = 9223372036854775808
   \<and> unat ([9223372036854775808, 0, 5 :: 64 word] ! 1) = 0"
proof -
  have five: "replicate 5 (0 :: int) = [0, 0, 0, 0, 0]"
    by (simp add: eval_nat_numeral)
  show ?thesis
    by (simp add: eval_defs span_range_def span_read_def five)
qed

text \<open>
  Claim C8. On a constructed buffer, \<open>get\<close> returns a view for every declared name and
  \<open>total_size\<close> returns a size: neither reads outside the boundary table nor fails in
  another way. Both are functions of the buffer alone, which no operation but a move
  changes, so this holds as long as the buffer lives.
\<close>

theorem get_and_total_size_total:
  assumes "Buffer_ctor Tags specs h = (Inr b, h')"
  shows "(\<forall>Tag \<in> set Tags. \<exists>v. get Tags b Tag = Inr v) \<and> (\<exists>t. total_size Tags b = Inr t)"
proof -
  have "\<exists>v. get Tags b Tag = Inr v" if "Tag \<in> set Tags" for Tag
  proof -
    from that obtain i where "i < length Tags" and "Tags ! i = Tag"
      by (auto simp: in_set_conv_nth)
    with get_ctor [OF assms, of i] show ?thesis by auto
  qed
  moreover have "\<exists>t. total_size Tags b = Inr t"
    using total_size_ctor [OF assms] by simp
  ultimately show ?thesis by blast
qed

theorem get_and_total_size_total_witness:
  "fst (Buffer_ctor [''Foo'', ''Bar''] [Segment ''Foo'' (10 :: 64 word), Segment ''Bar'' 20]
          (store0 100 :: int heap)) = Inr \<lparr>ends = [10, 30], data = Some 0\<rparr>
   \<and> (\<exists>v. get [''Foo'', ''Bar''] \<lparr>ends = [10, 30 :: 64 word], data = Some 0\<rparr> ''Foo'' = Inr v)
   \<and> (\<exists>v. get [''Foo'', ''Bar''] \<lparr>ends = [10, 30 :: 64 word], data = Some 0\<rparr> ''Bar'' = Inr v)
   \<and> (\<exists>t. total_size [''Foo'', ''Bar''] \<lparr>ends = [10, 30 :: 64 word], data = Some 0\<rparr> = Inr t)"
proof -
  let ?r = "Buffer_ctor [''Foo'', ''Bar''] [Segment ''Foo'' (10 :: 64 word), Segment ''Bar'' 20]
              (store0 100 :: int heap)"
  have f: "fst ?r = Inr \<lparr>ends = [10, 30], data = Some 0\<rparr>"
    by (simp add: eval_defs)
  from get_and_total_size_total [OF pair_fst_snd [OF f]] f show ?thesis
    by simp
qed

subsection \<open>The segments\<close>

text \<open>
  Claim C2, as amended. For every buffer constructed with lengths \<open>L_1..L_N\<close>, the
  view that \<open>get\<close> returns for the \<open>i\<close>-th declared name has length \<open>L_i\<close>. When the
  lengths sum to less than \<open>2^w\<close> (at most the largest \<open>std::size_t\<close>), the first range
  starts at 0, the end of each range is the start of the next, the end of the last is
  \<open>total_size()\<close>, and the ranges are pairwise disjoint and together cover
  \<open>[0, total_size())\<close>.
\<close>

theorem segments_partition_storage:
  assumes c: "Buffer_ctor Tags specs h = (Inr b, h')"
  shows "(\<forall>i<length Tags. \<exists>v. get Tags b (Tags ! i) = Inr v \<and> span_size v = n (specs ! i))
    \<and> (sum_list (lengths specs) < 2 ^ LENGTH('w) \<longrightarrow>
        (\<exists>vs (t :: 'w::len word). length vs = length Tags \<and> total_size Tags b = Inr t
          \<and> (\<forall>i<length Tags. get Tags b (Tags ! i) = Inr (vs ! i))
          \<and> (0 < length Tags \<longrightarrow> span_offset (vs ! 0) = 0)
          \<and> (\<forall>i. Suc i < length Tags \<longrightarrow>
                span_offset (vs ! i) + unat (span_size (vs ! i)) = span_offset (vs ! Suc i))
          \<and> (0 < length Tags \<longrightarrow>
                span_offset (vs ! (length Tags - 1)) + unat (span_size (vs ! (length Tags - 1)))
                  = unat t)
          \<and> (\<forall>i<length Tags. \<forall>j<length Tags. i \<noteq> j \<longrightarrow>
                span_range (vs ! i) \<inter> span_range (vs ! j) = {})
          \<and> (\<Union>i<length Tags. span_range (vs ! i)) = {0 ..< unat t}))"
proof -
  note D = Buffer_ctor_InrD [OF c]
  let ?N = "length Tags"
  let ?L = "lengths specs"
  let ?S = "\<lambda>i. sum_list (take i ?L)"
  let ?v = "\<lambda>i. \<lparr>span_data = data b, span_offset = ?S i, span_size = n (specs ! i)\<rparr>"
  let ?vs = "map ?v [0..<?N]"
  let ?t = "sum_list (map n specs)"
  have sizes: "\<forall>i<?N. \<exists>v. get Tags b (Tags ! i) = Inr v \<and> span_size v = n (specs ! i)"
    using get_ctor [OF c] by simp
  have layout: "\<exists>vs (t :: 'w word). length vs = ?N \<and> total_size Tags b = Inr t
          \<and> (\<forall>i<?N. get Tags b (Tags ! i) = Inr (vs ! i))
          \<and> (0 < ?N \<longrightarrow> span_offset (vs ! 0) = 0)
          \<and> (\<forall>i. Suc i < ?N \<longrightarrow>
                span_offset (vs ! i) + unat (span_size (vs ! i)) = span_offset (vs ! Suc i))
          \<and> (0 < ?N \<longrightarrow>
                span_offset (vs ! (?N - 1)) + unat (span_size (vs ! (?N - 1))) = unat t)
          \<and> (\<forall>i<?N. \<forall>j<?N. i \<noteq> j \<longrightarrow> span_range (vs ! i) \<inter> span_range (vs ! j) = {})
          \<and> (\<Union>i<?N. span_range (vs ! i)) = {0 ..< unat t}"
    if small: "sum_list ?L < 2 ^ LENGTH('w)"
  proof -
    have lenL: "length ?L = ?N" using D(3) by (simp add: lengths_def)
    have nth: "?vs ! i = ?v i" if "i < ?N" for i using that by simp
    have L_nth: "unat (n (specs ! i)) = ?L ! i" if "i < ?N" for i
      using that D(3) by (simp add: lengths_def)
    have S_Suc: "?S (Suc i) = ?S i + ?L ! i" if "i < ?N" for i
      using that lenL by (simp add: sum_list_take_Suc)
    have ut: "unat ?t = sum_list ?L"
      using small by (simp only: unat_sum_list lengths_alt mod_less)
    have rng: "span_range (?vs ! i) = {?S i ..< ?S (Suc i)}" if "i < ?N" for i
      using that D(3) span_range_segment [of i specs "data b"] by (simp only: nth)
    have 1: "length ?vs = ?N" by simp
    have 2: "total_size Tags b = Inr ?t" by (rule total_size_ctor [OF c])
    have 3: "\<forall>i<?N. get Tags b (Tags ! i) = Inr (?vs ! i)"
      using get_ctor_exact [OF c small] by (simp add: nth)
    have 4: "0 < ?N \<longrightarrow> span_offset (?vs ! 0) = 0" by (simp add: nth)
    have 5: "\<forall>i. Suc i < ?N \<longrightarrow>
        span_offset (?vs ! i) + unat (span_size (?vs ! i)) = span_offset (?vs ! Suc i)"
    proof (intro allI impI)
      fix i assume "Suc i < ?N"
      then have "i < ?N" by simp
      with S_Suc [OF this] L_nth [OF this] \<open>Suc i < ?N\<close> show
        "span_offset (?vs ! i) + unat (span_size (?vs ! i)) = span_offset (?vs ! Suc i)"
        by (simp add: nth)
    qed
    have 6: "0 < ?N \<longrightarrow>
        span_offset (?vs ! (?N - 1)) + unat (span_size (?vs ! (?N - 1))) = unat ?t"
    proof
      assume "0 < ?N"
      then have l: "?N - 1 < ?N" by simp
      from \<open>0 < ?N\<close> have "?S (Suc (?N - 1)) = sum_list ?L" using lenL by simp
      with S_Suc [OF l] L_nth [OF l] l ut show
        "span_offset (?vs ! (?N - 1)) + unat (span_size (?vs ! (?N - 1))) = unat ?t"
        by (simp add: nth)
    qed
    have 7: "\<forall>i<?N. \<forall>j<?N. i \<noteq> j \<longrightarrow> span_range (?vs ! i) \<inter> span_range (?vs ! j) = {}"
    proof (intro allI impI)
      fix i j assume ij: "i < ?N" "j < ?N" "i \<noteq> j"
      then consider "i < j" | "j < i" by arith
      then show "span_range (?vs ! i) \<inter> span_range (?vs ! j) = {}"
      proof cases
        case 1
        from segment_ranges_disjoint [OF this, of ?L] show ?thesis
          by (simp only: rng [OF ij(1)] rng [OF ij(2)])
      next
        case 2
        from segment_ranges_disjoint [OF this, of ?L] show ?thesis
          by (simp only: rng [OF ij(1)] rng [OF ij(2)] Int_commute)
      qed
    qed
    have "(\<Union>i<?N. span_range (?vs ! i)) = (\<Union>i<?N. {?S i ..< ?S (Suc i)})"
      by (rule SUP_cong) (simp_all only: rng lessThan_iff)
    also have "\<dots> = {0 ..< sum_list ?L}"
      using ranges_cover [of ?L] by (simp only: lenL)
    finally have 8: "(\<Union>i<?N. span_range (?vs ! i)) = {0 ..< unat ?t}"
      by (simp only: ut)
    from 1 2 3 4 5 6 7 8 show ?thesis by blast
  qed
  from sizes layout show ?thesis by blast
qed

theorem segments_partition_storage_witness:
  "fst (Buffer_ctor [''Foo'', ''Bar''] [Segment ''Foo'' (10 :: 64 word), Segment ''Bar'' 20]
          (store0 100 :: int heap)) = Inr \<lparr>ends = [10, 30], data = Some 0\<rparr>
   \<and> sum_list (lengths [Segment ''Foo'' (10 :: 64 word), Segment ''Bar'' 20]) < 2 ^ LENGTH(64)
   \<and> (\<exists>vs t. length vs = length [''Foo'', ''Bar'']
         \<and> total_size [''Foo'', ''Bar''] \<lparr>ends = [10, 30 :: 64 word], data = Some 0\<rparr> = Inr t
         \<and> get [''Foo'', ''Bar''] \<lparr>ends = [10, 30 :: 64 word], data = Some 0\<rparr> ''Foo'' = Inr (vs ! 0)
         \<and> get [''Foo'', ''Bar''] \<lparr>ends = [10, 30 :: 64 word], data = Some 0\<rparr> ''Bar'' = Inr (vs ! 1)
         \<and> span_size (vs ! 0) = 10 \<and> span_size (vs ! 1) = 20
         \<and> span_range (vs ! 0) \<inter> span_range (vs ! 1) = {}
         \<and> span_range (vs ! 0) \<union> span_range (vs ! 1) = {0 ..< unat t})"
proof -
  let ?specs = "[Segment ''Foo'' (10 :: 64 word), Segment ''Bar'' 20]"
  let ?r = "Buffer_ctor [''Foo'', ''Bar''] ?specs (store0 100 :: int heap)"
  have f: "fst ?r = Inr \<lparr>ends = [10, 30], data = Some 0\<rparr>"
    by (simp add: eval_defs)
  have s: "sum_list (lengths ?specs) < 2 ^ LENGTH(64)"
    by (simp add: eval_defs)
  have two: "{..<length [''Foo'', ''Bar'']} = {0, 1}" by auto
  note parts = segments_partition_storage [OF pair_fst_snd [OF f]]
  from parts [THEN conjunct2, rule_format, OF s]
  obtain vs t where *: "length vs = length [''Foo'', ''Bar'']"
      "total_size [''Foo'', ''Bar''] \<lparr>ends = [10, 30 :: 64 word], data = Some 0\<rparr> = Inr t"
      "\<forall>i<length [''Foo'', ''Bar''].
          get [''Foo'', ''Bar''] \<lparr>ends = [10, 30 :: 64 word], data = Some 0\<rparr> ([''Foo'', ''Bar''] ! i)
            = Inr (vs ! i)"
      "\<forall>i<length [''Foo'', ''Bar'']. \<forall>j<length [''Foo'', ''Bar'']. i \<noteq> j \<longrightarrow>
            span_range (vs ! i) \<inter> span_range (vs ! j) = {}"
      "(\<Union>i<length [''Foo'', ''Bar'']. span_range (vs ! i)) = {0 ..< unat t}"
    by blast
  from *(3) [rule_format, of 0] *(3) [rule_format, of 1]
  have g: "get [''Foo'', ''Bar''] \<lparr>ends = [10, 30 :: 64 word], data = Some 0\<rparr> ''Foo'' = Inr (vs ! 0)"
      "get [''Foo'', ''Bar''] \<lparr>ends = [10, 30 :: 64 word], data = Some 0\<rparr> ''Bar'' = Inr (vs ! 1)"
    by simp_all
  from parts [THEN conjunct1, rule_format, of 0]
  obtain v0 where "get [''Foo'', ''Bar''] \<lparr>ends = [10, 30 :: 64 word], data = Some 0\<rparr> ''Foo'' = Inr v0"
    and "span_size v0 = 10"
    by (auto simp: Segment_def)
  with g(1) have z0: "span_size (vs ! 0) = 10" by simp
  from parts [THEN conjunct1, rule_format, of 1]
  obtain v1 where "get [''Foo'', ''Bar''] \<lparr>ends = [10, 30 :: 64 word], data = Some 0\<rparr> ''Bar'' = Inr v1"
    and "span_size v1 = 20"
    by (auto simp: Segment_def)
  with g(2) have z1: "span_size (vs ! 1) = 20" by simp
  note z = z0 z1
  from *(4) [rule_format, of 0 1] have d: "span_range (vs ! 0) \<inter> span_range (vs ! 1) = {}"
    by simp
  from *(5) have u: "span_range (vs ! 0) \<union> span_range (vs ! 1) = {0 ..< unat t}"
    by (simp only: two) simp
  from f s *(1,2) g z d u show ?thesis by blast
qed

text \<open>
  Without the bound the ranges overlap: with a 64-bit \<open>std::size_t\<close> and the lengths
  \<open>2^63\<close>, \<open>2^63\<close> and 5 the table is \<open>[2^63, 0, 5]\<close>, the views of the first and the third
  name both start at position 0 of the array of 5 elements, and the first view reaches
  position 5, outside \<open>[0, total_size())\<close>.
\<close>

theorem segments_partition_storage_counterexample:
  "fst (Buffer_ctor [''Foo'', ''Bar'', ''Baz'']
          [Segment ''Foo'' (9223372036854775808 :: 64 word),
           Segment ''Bar'' 9223372036854775808, Segment ''Baz'' 5]
          (store0 5 :: int heap))
     = Inr \<lparr>ends = [9223372036854775808, 0, 5], data = Some 0\<rparr>
   \<and> get [''Foo'', ''Bar'', ''Baz''] \<lparr>ends = [9223372036854775808, 0, 5 :: 64 word], data = Some 0\<rparr> ''Foo''
     = Inr \<lparr>span_data = Some 0, span_offset = 0, span_size = 9223372036854775808\<rparr>
   \<and> get [''Foo'', ''Bar'', ''Baz''] \<lparr>ends = [9223372036854775808, 0, 5 :: 64 word], data = Some 0\<rparr> ''Baz''
     = Inr \<lparr>span_data = Some 0, span_offset = 0, span_size = 5\<rparr>
   \<and> 0 \<in> span_range \<lparr>span_data = Some 0, span_offset = 0, span_size = 9223372036854775808 :: 64 word\<rparr>
          \<inter> span_range \<lparr>span_data = Some 0, span_offset = 0, span_size = 5 :: 64 word\<rparr>
   \<and> total_size [''Foo'', ''Bar'', ''Baz''] \<lparr>ends = [9223372036854775808, 0, 5 :: 64 word], data = Some 0\<rparr>
     = Inr 5
   \<and> 5 \<in> span_range \<lparr>span_data = Some 0, span_offset = 0, span_size = 9223372036854775808 :: 64 word\<rparr>"
  by (simp add: eval_defs span_range_def)

text \<open>
  Claim C4, as amended. For every buffer constructed with lengths that sum to less than
  \<open>2^w\<close>, in every store where its array is alive, a write at a position \<open>k < L_i\<close>
  through the view of the \<open>i\<close>-th segment is defined, reading position \<open>k\<close> back through
  the same view returns the value written, and every read through the view of any other
  segment returns what it returned before the write. The array is alive right after
  construction and stays alive under such writes.
\<close>

theorem write_read_round_trip_and_frame:
  assumes c: "Buffer_ctor Tags specs h = (Inr b, h')"
    and small: "sum_list (lengths specs) < 2 ^ LENGTH('w)"
    and live: "owns g b (sum_list (lengths specs))"
    and i: "i < length Tags"
    and k: "k < (n (specs ! i) :: 'w::len word)"
  shows "owns h' b (sum_list (lengths specs))
       \<and> (\<exists>v g'. get Tags b (Tags ! i) = Inr v
              \<and> span_write g v k x = Some g'
              \<and> span_read g' v k = Some x
              \<and> owns g' b (sum_list (lengths specs))
              \<and> (\<forall>j<length Tags. j \<noteq> i \<longrightarrow>
                    (\<exists>u. get Tags b (Tags ! j) = Inr u
                        \<and> (\<forall>k'. span_read g' u k' = span_read g u k'))))"
proof -
  note D = Buffer_ctor_InrD [OF c]
  let ?L = "lengths specs"
  let ?S = "\<lambda>i. sum_list (take i ?L)"
  let ?v = "\<lambda>i. \<lparr>span_data = data b, span_offset = ?S i, span_size = n (specs ! i)\<rparr>"
  have ut: "unat (sum_list (map n specs)) = sum_list ?L"
    using small by (simp only: unat_sum_list lengths_alt mod_less)
  have first: "owns h' b (sum_list ?L)"
    using owns_ctor [OF c] by (simp only: ut)
  have gi: "get Tags b (Tags ! i) = Inr (?v i)"
    by (rule get_ctor_exact [OF c small i])
  from live obtain p blk where p: "data b = Some p" and blk: "cells g p = Some blk"
    and len: "length blk = sum_list ?L"
    by (auto simp: owns_def split: option.splits)
  from i D(3) have il: "i < length specs" by simp
  from k have "?S i + unat k \<in> span_range (?v i)"
    by (simp add: span_range_def word_less_nat_alt)
  then have "?S i + unat k < ?S (Suc i)"
    by (simp only: span_range_segment [OF il] atLeastLessThan_iff)
  also have "\<dots> \<le> sum_list ?L" by (rule sum_list_take_le)
  finally have inb: "?S i + unat k < length blk" by (simp only: len)
  let ?g' = "g\<lparr>cells := (cells g)(p \<mapsto> blk[?S i + unat k := x])\<rparr>"
  have w: "span_write g (?v i) k x = Some ?g'"
    using k p blk inb by (simp add: span_write_def)
  have r: "span_read ?g' (?v i) k = Some x"
    by (rule span_write_read [OF w])
  have o: "owns ?g' b (sum_list ?L)"
    using p len by (simp add: owns_def)
  have fr: "\<forall>j<length Tags. j \<noteq> i \<longrightarrow>
      (\<exists>u. get Tags b (Tags ! j) = Inr u \<and> (\<forall>k'. span_read ?g' u k' = span_read g u k'))"
  proof (intro allI impI)
    fix j assume j: "j < length Tags" and ji: "j \<noteq> i"
    from j D(3) have jl: "j < length specs" by simp
    have gj: "get Tags b (Tags ! j) = Inr (?v j)"
      by (rule get_ctor_exact [OF c small j])
    from ji consider "j < i" | "i < j" by arith
    then have "{?S j ..< ?S (Suc j)} \<inter> {?S i ..< ?S (Suc i)} = {}"
    proof cases
      case 1
      then show ?thesis by (rule segment_ranges_disjoint)
    next
      case 2
      from segment_ranges_disjoint [OF this, of ?L] show ?thesis
        by (simp only: Int_commute)
    qed
    then have apart: "span_range (?v j) \<inter> span_range (?v i) = {}"
      by (simp only: span_range_segment [OF il] span_range_segment [OF jl])
    have "\<forall>k'. span_read ?g' (?v j) k' = span_read g (?v j) k'"
      using span_write_frame [OF w _ apart] by simp
    with gj show "\<exists>u. get Tags b (Tags ! j) = Inr u
        \<and> (\<forall>k'. span_read ?g' u k' = span_read g u k')"
      by blast
  qed
  from first gi w r o fr show ?thesis by blast
qed

theorem write_read_round_trip_and_frame_witness:
  "fst (Buffer_ctor [''Foo'', ''Bar''] [Segment ''Foo'' (10 :: 64 word), Segment ''Bar'' 20]
          (store0 100 :: int heap)) = Inr \<lparr>ends = [10, 30], data = Some 0\<rparr>
   \<and> get [''Foo'', ''Bar''] \<lparr>ends = [10, 30 :: 64 word], data = Some 0\<rparr> ''Foo''
       = Inr \<lparr>span_data = Some 0, span_offset = 0, span_size = 10\<rparr>
   \<and> get [''Foo'', ''Bar''] \<lparr>ends = [10, 30 :: 64 word], data = Some 0\<rparr> ''Bar''
       = Inr \<lparr>span_data = Some 0, span_offset = 10, span_size = 20\<rparr>
   \<and> (\<exists>g'. span_write
               (snd (Buffer_ctor [''Foo'', ''Bar'']
                       [Segment ''Foo'' (10 :: 64 word), Segment ''Bar'' 20] (store0 100 :: int heap)))
               \<lparr>span_data = Some 0, span_offset = 0, span_size = 10 :: 64 word\<rparr> 9 19 = Some g'
           \<and> span_read g' \<lparr>span_data = Some 0, span_offset = 0, span_size = 10 :: 64 word\<rparr> 9 = Some 19
           \<and> span_read g' \<lparr>span_data = Some 0, span_offset = 10, span_size = 20 :: 64 word\<rparr> 0 = Some 0)"
proof -
  let ?specs = "[Segment ''Foo'' (10 :: 64 word), Segment ''Bar'' 20]"
  let ?r = "Buffer_ctor [''Foo'', ''Bar''] ?specs (store0 100 :: int heap)"
  let ?b = "\<lparr>ends = [10, 30 :: 64 word], data = Some 0\<rparr>"
  let ?foo = "\<lparr>span_data = Some 0, span_offset = 0, span_size = 10 :: 64 word\<rparr>"
  let ?bar = "\<lparr>span_data = Some 0, span_offset = 10, span_size = 20 :: 64 word\<rparr>"
  have f: "fst ?r = Inr ?b"
    by (simp add: eval_defs)
  have s: "sum_list (lengths ?specs) < 2 ^ LENGTH(64)"
    by (simp add: eval_defs)
  have h1: "snd ?r = \<lparr>cells = [0 \<mapsto> replicate 30 0], next_addr = 1, avail = 70\<rparr>"
    by (simp add: eval_defs)
  have live: "owns (snd ?r) ?b (sum_list (lengths ?specs))"
    by (simp only: h1) (simp add: owns_def lengths_def Segment_def)
  have i: "0 < length [''Foo'', ''Bar'']" by simp
  have k: "(9 :: 64 word) < n (?specs ! 0)" by (simp add: Segment_def)
  have gf: "get [''Foo'', ''Bar''] ?b ''Foo'' = Inr ?foo"
    and gb: "get [''Foo'', ''Bar''] ?b ''Bar'' = Inr ?bar"
    by (simp_all add: eval_defs)
  have before: "span_read (snd ?r) ?bar 0 = Some 0"
    by (simp only: h1) (simp add: span_read_def)
  from write_read_round_trip_and_frame [OF pair_fst_snd [OF f] s live i k, of 19]
  obtain v g' where v: "get [''Foo'', ''Bar''] ?b ([''Foo'', ''Bar''] ! 0) = Inr v"
    and w: "span_write (snd ?r) v 9 19 = Some g'"
    and r: "span_read g' v 9 = Some 19"
    and fr: "\<forall>j<length [''Foo'', ''Bar'']. j \<noteq> 0 \<longrightarrow>
        (\<exists>u. get [''Foo'', ''Bar''] ?b ([''Foo'', ''Bar''] ! j) = Inr u
            \<and> (\<forall>k'. span_read g' u k' = span_read (snd ?r) u k'))"
    by blast
  from v gf have v_eq: "v = ?foo" by simp
  from fr [rule_format, of 1] gb have "span_read g' ?bar 0 = span_read (snd ?r) ?bar 0"
    by simp
  with before have "span_read g' ?bar 0 = Some 0" by simp
  with f gf gb w r v_eq show ?thesis by blast
qed

text \<open>
  Without the bound a write through one segment shows through another: with the lengths
  \<open>2^63\<close>, \<open>2^63\<close> and 5 on a 64-bit \<open>std::size_t\<close>, writing 7 at position 0 of the third
  segment changes position 0 of the first segment from 0 to 7.
\<close>

theorem write_read_round_trip_and_frame_counterexample:
  "fst (Buffer_ctor [''Foo'', ''Bar'', ''Baz'']
          [Segment ''Foo'' (9223372036854775808 :: 64 word),
           Segment ''Bar'' 9223372036854775808, Segment ''Baz'' 5]
          (store0 5 :: int heap))
     = Inr \<lparr>ends = [9223372036854775808, 0, 5], data = Some 0\<rparr>
   \<and> snd (Buffer_ctor [''Foo'', ''Bar'', ''Baz'']
          [Segment ''Foo'' (9223372036854775808 :: 64 word),
           Segment ''Bar'' 9223372036854775808, Segment ''Baz'' 5]
          (store0 5 :: int heap))
     = \<lparr>cells = [0 \<mapsto> [0, 0, 0, 0, 0]], next_addr = 1, avail = 0\<rparr>
   \<and> get [''Foo'', ''Bar'', ''Baz''] \<lparr>ends = [9223372036854775808, 0, 5 :: 64 word], data = Some 0\<rparr> ''Foo''
     = Inr \<lparr>span_data = Some 0, span_offset = 0, span_size = 9223372036854775808\<rparr>
   \<and> get [''Foo'', ''Bar'', ''Baz''] \<lparr>ends = [9223372036854775808, 0, 5 :: 64 word], data = Some 0\<rparr> ''Baz''
     = Inr \<lparr>span_data = Some 0, span_offset = 0, span_size = 5\<rparr>
   \<and> span_read \<lparr>cells = [0 \<mapsto> [0, 0, 0, 0, 0 :: int]], next_addr = 1, avail = 0\<rparr>
        \<lparr>span_data = Some 0, span_offset = 0, span_size = 9223372036854775808 :: 64 word\<rparr> 0
     = Some 0
   \<and> span_write \<lparr>cells = [0 \<mapsto> [0, 0, 0, 0, 0 :: int]], next_addr = 1, avail = 0\<rparr>
        \<lparr>span_data = Some 0, span_offset = 0, span_size = 5 :: 64 word\<rparr> 0 7
     = Some \<lparr>cells = [0 \<mapsto> [7, 0, 0, 0, 0]], next_addr = 1, avail = 0\<rparr>
   \<and> span_read \<lparr>cells = [0 \<mapsto> [7, 0, 0, 0, 0 :: int]], next_addr = 1, avail = 0\<rparr>
        \<lparr>span_data = Some 0, span_offset = 0, span_size = 9223372036854775808 :: 64 word\<rparr> 0
     = Some 7"
proof -
  have five: "replicate 5 (0 :: int) = [0, 0, 0, 0, 0]"
    by (simp add: eval_nat_numeral)
  show ?thesis
    by (simp add: eval_defs span_read_def span_write_def five)
qed

text \<open>
  Claim C5, as amended. A segment whose requested length is 0 yields an empty view: its
  size is 0, it covers no position and no read through it is defined. A buffer with no
  segment has \<open>total_size() = 0\<close>, and its constructor requests an array of zero elements:
  \<open>std::make_unique<Underlier[]>(0)\<close> is still called, the store hands out a new array
  that holds no element, which the buffer owns, and uses up no element of the store.
\<close>

theorem zero_length_segment_and_empty_buffer:
  "(\<forall>b h' i. Buffer_ctor Tags specs h = (Inr b, h') \<and> i < length Tags \<and> n (specs ! i) = 0 \<longrightarrow>
       (\<exists>v. get Tags b (Tags ! i) = Inr v \<and> span_size v = 0 \<and> span_range v = {}
            \<and> (\<forall>(g :: 'u heap) k. span_read g v k = None)))
   \<and> Buffer_ctor [] ([] :: ('t, 'w::len) SegmentSize list) (h :: 'u::zero heap)
       = (Inr \<lparr>ends = [], data = Some (next_addr h)\<rparr>,
          h\<lparr>cells := (cells h)(next_addr h \<mapsto> []), next_addr := Suc (next_addr h)\<rparr>)
   \<and> total_size ([] :: 't list) \<lparr>ends = [] :: 'w word list, data = Some (next_addr h)\<rparr> = Inr 0"
proof -
  have "\<exists>v. get Tags b (Tags ! i) = Inr v \<and> span_size v = 0 \<and> span_range v = {}
            \<and> (\<forall>(g :: 'u heap) k. span_read g v k = None)"
    if c: "Buffer_ctor Tags specs h = (Inr b, h')" and i: "i < length Tags"
      and z: "n (specs ! i) = 0" for b h' i
    using get_ctor [OF c i] z by (simp add: span_range_def span_read_def)
  moreover have "Buffer_ctor [] ([] :: ('t, 'w) SegmentSize list) h
       = (Inr \<lparr>ends = [], data = Some (next_addr h)\<rparr>,
          h\<lparr>cells := (cells h)(next_addr h \<mapsto> []), next_addr := Suc (next_addr h)\<rparr>)"
    by (simp add: Buffer_ctor_def UniqueTags_def last_end_def make_unique_def)
  moreover have "total_size ([] :: 't list) \<lparr>ends = [] :: 'w word list, data = Some (next_addr h)\<rparr>
       = Inr 0"
    by (simp add: total_size_def last_end_def)
  ultimately show ?thesis by blast
qed

theorem zero_length_segment_and_empty_buffer_witness:
  "fst (Buffer_ctor [''Foo''] [Segment ''Foo'' (0 :: 64 word)] (store0 0 :: int heap))
     = Inr \<lparr>ends = [0], data = Some 0\<rparr>
   \<and> get [''Foo''] \<lparr>ends = [0 :: 64 word], data = Some 0\<rparr> ''Foo''
     = Inr \<lparr>span_data = Some 0, span_offset = 0, span_size = 0\<rparr>
   \<and> span_range \<lparr>span_data = Some 0, span_offset = 0, span_size = 0 :: 64 word\<rparr> = {}
   \<and> total_size [''Foo''] \<lparr>ends = [0 :: 64 word], data = Some 0\<rparr> = Inr 0"
proof -
  let ?specs = "[Segment ''Foo'' (0 :: 64 word)]"
  let ?r = "Buffer_ctor [''Foo''] ?specs (store0 0 :: int heap)"
  let ?b = "\<lparr>ends = [0 :: 64 word], data = Some 0\<rparr>"
  have f: "fst ?r = Inr ?b" by (simp add: eval_defs)
  have i: "0 < length [''Foo'']" by simp
  have z: "n (?specs ! 0) = 0" by (simp add: Segment_def)
  have g: "get [''Foo''] ?b ''Foo'' = Inr \<lparr>span_data = Some 0, span_offset = 0, span_size = 0\<rparr>"
    by (simp add: eval_defs)
  from zero_length_segment_and_empty_buffer [of "[''Foo'']" ?specs "store0 0 :: int heap"]
  have "\<exists>v. get [''Foo''] ?b ([''Foo''] ! 0) = Inr v \<and> span_size v = 0 \<and> span_range v = {}"
    using pair_fst_snd [OF f] i z by blast
  with g have "span_range \<lparr>span_data = Some 0, span_offset = 0, span_size = 0 :: 64 word\<rparr> = {}"
    by simp
  with f g show ?thesis by (simp add: total_size_def last_end_def array_at_def)
qed

text \<open>
  That no allocation is performed fails: constructing the buffer without segments in a
  store that holds nothing leaves an (empty) array at address 0 in the store, owned by
  the buffer, and moves the next address on.
\<close>

theorem zero_length_segment_and_empty_buffer_counterexample:
  "fst (Buffer_ctor [] ([] :: (string, 64) SegmentSize list) (store0 0 :: int heap))
     = Inr \<lparr>ends = [], data = Some 0\<rparr>
   \<and> cells (store0 0 :: int heap) 0 = None
   \<and> next_addr (store0 0 :: int heap) = 0
   \<and> cells (snd (Buffer_ctor [] ([] :: (string, 64) SegmentSize list) (store0 0 :: int heap))) 0
     = Some []
   \<and> next_addr (snd (Buffer_ctor [] ([] :: (string, 64) SegmentSize list) (store0 0 :: int heap)))
     = 1
   \<and> snd (Buffer_ctor [] ([] :: (string, 64) SegmentSize list) (store0 0 :: int heap))
     \<noteq> store0 0"
  by (simp add: eval_defs)

subsection \<open>Copy and move\<close>

text \<open>
  Claim C9, as amended. Copying a buffer is rejected (the copy operations are deleted).
  Moving a buffer, by construction or by assignment from another object, gives the
  destination the boundary table and the array of the source, so that the destination
  returns the views the source returned, and leaves the source without an array; the
  assignment deletes the array the destination held and touches no other object, and
  assigning a buffer to itself changes nothing. Destroying the moved-from source gives
  nothing back to the store and assigning to it deletes nothing. The moved-from source
  keeps its copy of the boundary table: \<open>total_size\<close> and \<open>get\<close> still return on it what
  they returned before, except that the views have no array behind them, so that no
  read or write through them is defined.
\<close>

theorem move_transfers_ownership:
  "Buffer_copy src = Inl UseOfDeletedFunction
   \<and> fst (Buffer_move src) = src
   \<and> data (snd (Buffer_move src)) = None
   \<and> ends (snd (Buffer_move src)) = ends src
   \<and> total_size Tags (snd (Buffer_move src)) = total_size Tags src
   \<and> (\<forall>Tag v. get Tags src Tag = Inr v \<longrightarrow>
         get Tags (fst (Buffer_move src)) Tag = Inr v
         \<and> get Tags (snd (Buffer_move src)) Tag = Inr (v\<lparr>span_data := None\<rparr>)
         \<and> (\<forall>k x. span_read h (v\<lparr>span_data := None\<rparr>) k = None
                 \<and> span_write h (v\<lparr>span_data := None\<rparr>) k x = None))
   \<and> Buffer_dtor h (snd (Buffer_move src)) = h
   \<and> (dst \<noteq> other \<longrightarrow>
         fst (Buffer_move_assign h objs dst other) dst
           = \<lparr>ends = ends (objs other), data = data (objs other)\<rparr>
         \<and> fst (Buffer_move_assign h objs dst other) other = (objs other)\<lparr>data := None\<rparr>
         \<and> (\<forall>a. a \<noteq> dst \<and> a \<noteq> other \<longrightarrow>
               fst (Buffer_move_assign h objs dst other) a = objs a)
         \<and> snd (Buffer_move_assign h objs dst other) = unique_ptr_delete h (data (objs dst))
         \<and> (data (objs dst) = None \<longrightarrow> snd (Buffer_move_assign h objs dst other) = h))
   \<and> Buffer_move_assign h objs dst dst = (objs, h)"
proof -
  have 1: "Buffer_copy src = Inl UseOfDeletedFunction"
    by (simp add: Buffer_copy_def)
  have 2: "fst (Buffer_move src) = src"
    by (cases src) (simp add: Buffer_move_def)
  have s: "snd (Buffer_move src) = src\<lparr>data := None\<rparr>"
    by (simp add: Buffer_move_def)
  have 3: "data (snd (Buffer_move src)) = None" and 4: "ends (snd (Buffer_move src)) = ends src"
    by (simp_all add: s)
  have 5: "total_size Tags (snd (Buffer_move src)) = total_size Tags src"
    by (simp add: s total_size_def)
  have 6: "\<forall>Tag v. get Tags src Tag = Inr v \<longrightarrow>
         get Tags (fst (Buffer_move src)) Tag = Inr v
         \<and> get Tags (snd (Buffer_move src)) Tag = Inr (v\<lparr>span_data := None\<rparr>)
         \<and> (\<forall>k x. span_read h (v\<lparr>span_data := None\<rparr>) k = None
                 \<and> span_write h (v\<lparr>span_data := None\<rparr>) k x = None)"
    by (simp add: 2 s get_moved_from span_read_def span_write_def)
  have 7: "Buffer_dtor h (snd (Buffer_move src)) = h"
    by (simp add: s Buffer_dtor_def unique_ptr_delete_def)
  have 8: "dst \<noteq> other \<longrightarrow>
         fst (Buffer_move_assign h objs dst other) dst
           = \<lparr>ends = ends (objs other), data = data (objs other)\<rparr>
         \<and> fst (Buffer_move_assign h objs dst other) other = (objs other)\<lparr>data := None\<rparr>
         \<and> (\<forall>a. a \<noteq> dst \<and> a \<noteq> other \<longrightarrow>
               fst (Buffer_move_assign h objs dst other) a = objs a)
         \<and> snd (Buffer_move_assign h objs dst other) = unique_ptr_delete h (data (objs dst))
         \<and> (data (objs dst) = None \<longrightarrow> snd (Buffer_move_assign h objs dst other) = h)"
    by (simp add: Buffer_move_assign_distinct unique_ptr_delete_def)
  have 9: "Buffer_move_assign h objs dst dst = (objs, h)"
    by (rule Buffer_move_assign_self)
  show ?thesis
    by (intro conjI 1 2 3 4 5 6 7 8 9)
qed

theorem move_transfers_ownership_witness:
  "get [''Foo'', ''Bar''] \<lparr>ends = [10, 30 :: 64 word], data = Some 0\<rparr> ''Bar''
     = Inr \<lparr>span_data = Some 0, span_offset = 10, span_size = 20\<rparr>
   \<and> get [''Foo'', ''Bar''] (fst (Buffer_move \<lparr>ends = [10, 30 :: 64 word], data = Some 0\<rparr>)) ''Bar''
     = Inr \<lparr>span_data = Some 0, span_offset = 10, span_size = 20\<rparr>
   \<and> get [''Foo'', ''Bar''] (snd (Buffer_move \<lparr>ends = [10, 30 :: 64 word], data = Some 0\<rparr>)) ''Bar''
     = Inr \<lparr>span_data = None, span_offset = 10, span_size = 20\<rparr>
   \<and> span_read (\<lparr>cells = [0 \<mapsto> replicate 30 0, 1 \<mapsto> [0, 0]], next_addr = 2, avail = 68\<rparr> :: int heap)
        \<lparr>span_data = None, span_offset = 10, span_size = 20 :: 64 word\<rparr> 0 = None
   \<and> span_write (\<lparr>cells = [0 \<mapsto> replicate 30 0, 1 \<mapsto> [0, 0]], next_addr = 2, avail = 68\<rparr> :: int heap)
        \<lparr>span_data = None, span_offset = 10, span_size = 20 :: 64 word\<rparr> 0 5 = None
   \<and> Buffer_dtor (\<lparr>cells = [0 \<mapsto> replicate 30 0, 1 \<mapsto> [0, 0]], next_addr = 2, avail = 68\<rparr> :: int heap)
        (snd (Buffer_move \<lparr>ends = [10, 30 :: 64 word], data = Some 0\<rparr>))
     = \<lparr>cells = [0 \<mapsto> replicate 30 0, 1 \<mapsto> [0, 0]], next_addr = 2, avail = 68\<rparr>
   \<and> fst (Buffer_move_assign
             (\<lparr>cells = [0 \<mapsto> replicate 30 0, 1 \<mapsto> [0, 0]], next_addr = 2, avail = 68\<rparr> :: int heap)
             ((\<lambda>_. \<lparr>ends = [0, 0], data = None\<rparr>)
                (0 := \<lparr>ends = [10, 30 :: 64 word], data = Some 0\<rparr>,
                 1 := \<lparr>ends = [1, 2], data = Some 1\<rparr>)) 1 0) 1
     = \<lparr>ends = [10, 30], data = Some 0\<rparr>
   \<and> fst (Buffer_move_assign
             (\<lparr>cells = [0 \<mapsto> replicate 30 0, 1 \<mapsto> [0, 0]], next_addr = 2, avail = 68\<rparr> :: int heap)
             ((\<lambda>_. \<lparr>ends = [0, 0], data = None\<rparr>)
                (0 := \<lparr>ends = [10, 30 :: 64 word], data = Some 0\<rparr>,
                 1 := \<lparr>ends = [1, 2], data = Some 1\<rparr>)) 1 0) 0
     = \<lparr>ends = [10, 30], data = None\<rparr>
   \<and> cells (snd (Buffer_move_assign
             (\<lparr>cells = [0 \<mapsto> replicate 30 0, 1 \<mapsto> [0, 0]], next_addr = 2, avail = 68\<rparr> :: int heap)
             ((\<lambda>_. \<lparr>ends = [0, 0], data = None\<rparr>)
                (0 := \<lparr>ends = [10, 30 :: 64 word], data = Some 0\<rparr>,
                 1 := \<lparr>ends = [1, 2], data = Some 1\<rparr>)) 1 0)) 1
     = None
   \<and> cells (snd (Buffer_move_assign
             (\<lparr>cells = [0 \<mapsto> replicate 30 0, 1 \<mapsto> [0, 0]], next_addr = 2, avail = 68\<rparr> :: int heap)
             ((\<lambda>_. \<lparr>ends = [0, 0], data = None\<rparr>)
                (0 := \<lparr>ends = [10, 30 :: 64 word], data = Some 0\<rparr>,
                 1 := \<lparr>ends = [1, 2], data = Some 1\<rparr>)) 1 0)) 0
     = Some (replicate 30 0)
   \<and> Buffer_move_assign
         (\<lparr>cells = [0 \<mapsto> replicate 30 0, 1 \<mapsto> [0, 0]], next_addr = 2, avail = 68\<rparr> :: int heap)
         ((\<lambda>_. \<lparr>ends = [0, 0], data = None\<rparr>)
            (0 := \<lparr>ends = [10, 30 :: 64 word], data = Some 0\<rparr>,
             1 := \<lparr>ends = [1, 2], data = Some 1\<rparr>)) 1 1
     = ((\<lambda>_. \<lparr>ends = [0, 0], data = None\<rparr>)
            (0 := \<lparr>ends = [10, 30 :: 64 word], data = Some 0\<rparr>,
             1 := \<lparr>ends = [1, 2], data = Some 1\<rparr>),
        \<lparr>cells = [0 \<mapsto> replicate 30 0, 1 \<mapsto> [0, 0]], next_addr = 2, avail = 68\<rparr>)"
proof -
  let ?src = "\<lparr>ends = [10, 30 :: 64 word], data = Some 0\<rparr>"
  let ?h = "\<lparr>cells = [0 \<mapsto> replicate 30 0, 1 \<mapsto> [0, 0]], next_addr = 2, avail = 68\<rparr> :: int heap"
  let ?objs = "(\<lambda>_. \<lparr>ends = [0, 0], data = None\<rparr>)
                (0 := ?src, 1 := \<lparr>ends = [1, 2 :: 64 word], data = Some 1\<rparr>) :: nat \<Rightarrow> 64 Buffer"
  let ?bar = "\<lparr>span_data = Some 0, span_offset = 10, span_size = 20 :: 64 word\<rparr>"
  have g: "get [''Foo'', ''Bar''] ?src ''Bar'' = Inr ?bar"
    by (simp add: get_def array_at_def)
  have ne: "(1 :: nat) \<noteq> 0" by simp
  note m = move_transfers_ownership [where src = ?src and Tags = "[''Foo'', ''Bar'']"
      and h = ?h and dst = 1 and other = 0 and objs = ?objs]
  from m have views: "\<forall>Tag v. get [''Foo'', ''Bar''] ?src Tag = Inr v \<longrightarrow>
         get [''Foo'', ''Bar''] (fst (Buffer_move ?src)) Tag = Inr v
         \<and> get [''Foo'', ''Bar''] (snd (Buffer_move ?src)) Tag = Inr (v\<lparr>span_data := None\<rparr>)
         \<and> (\<forall>k x. span_read ?h (v\<lparr>span_data := None\<rparr>) k = None
                 \<and> span_write ?h (v\<lparr>span_data := None\<rparr>) k x = None)"
    by (elim conjE)
  from views [rule_format, OF g]
  have v1: "get [''Foo'', ''Bar''] (fst (Buffer_move ?src)) ''Bar'' = Inr ?bar"
    and v2: "get [''Foo'', ''Bar''] (snd (Buffer_move ?src)) ''Bar''
        = Inr \<lparr>span_data = None, span_offset = 10, span_size = 20\<rparr>"
    and v3: "span_read ?h \<lparr>span_data = None, span_offset = 10, span_size = 20 :: 64 word\<rparr> 0 = None"
    and v4: "span_write ?h \<lparr>span_data = None, span_offset = 10, span_size = 20 :: 64 word\<rparr> 0 5 = None"
    by simp_all
  from m have d: "Buffer_dtor ?h (snd (Buffer_move ?src)) = ?h"
    by (elim conjE)
  from m have asg: "(1 :: nat) \<noteq> 0 \<longrightarrow>
         fst (Buffer_move_assign ?h ?objs 1 0) 1
           = \<lparr>ends = ends (?objs 0), data = data (?objs 0)\<rparr>
         \<and> fst (Buffer_move_assign ?h ?objs 1 0) 0 = (?objs 0)\<lparr>data := None\<rparr>
         \<and> (\<forall>a. a \<noteq> 1 \<and> a \<noteq> 0 \<longrightarrow>
               fst (Buffer_move_assign ?h ?objs 1 0) a = ?objs a)
         \<and> snd (Buffer_move_assign ?h ?objs 1 0) = unique_ptr_delete ?h (data (?objs 1))
         \<and> (data (?objs 1) = None \<longrightarrow> snd (Buffer_move_assign ?h ?objs 1 0) = ?h)"
    by (elim conjE)
  from asg [rule_format, OF ne]
  have a1: "fst (Buffer_move_assign ?h ?objs 1 0) 1 = \<lparr>ends = [10, 30], data = Some 0\<rparr>"
    and a2: "fst (Buffer_move_assign ?h ?objs 1 0) 0 = \<lparr>ends = [10, 30], data = None\<rparr>"
    and a3: "snd (Buffer_move_assign ?h ?objs 1 0) = unique_ptr_delete ?h (data (?objs 1))"
    by simp_all
  have a4: "cells (snd (Buffer_move_assign ?h ?objs 1 0)) 1 = None"
    and a5: "cells (snd (Buffer_move_assign ?h ?objs 1 0)) 0 = Some (replicate 30 0)"
    by (simp_all only: a3) (simp_all add: unique_ptr_delete_def)
  from m have self: "Buffer_move_assign ?h ?objs 1 1 = (?objs, ?h)"
    by (elim conjE)
  show ?thesis
    by (intro conjI g v1 v2 v3 v4 d a1 a2 a4 a5 self)
qed

text \<open>
  That no operation but destruction and assignment is defined on the moved-from source
  fails: nothing in the class marks the state. After a move from the buffer with the
  lengths 10 and 20, \<open>total_size\<close> on the source still returns 30 and \<open>get\<close> still returns
  views of 10 and of 20 elements, over \<open>nullptr\<close>.
\<close>

theorem move_transfers_ownership_counterexample:
  "fst (Buffer_ctor [''Foo'', ''Bar''] [Segment ''Foo'' (10 :: 64 word), Segment ''Bar'' 20]
          (store0 100 :: int heap)) = Inr \<lparr>ends = [10, 30], data = Some 0\<rparr>
   \<and> snd (Buffer_move \<lparr>ends = [10, 30 :: 64 word], data = Some 0\<rparr>)
       = \<lparr>ends = [10, 30], data = None\<rparr>
   \<and> total_size [''Foo'', ''Bar''] \<lparr>ends = [10, 30 :: 64 word], data = None\<rparr> = Inr 30
   \<and> get [''Foo'', ''Bar''] \<lparr>ends = [10, 30 :: 64 word], data = None\<rparr> ''Bar''
       = Inr \<lparr>span_data = None, span_offset = 10, span_size = 20\<rparr>
   \<and> get [''Foo'', ''Bar''] \<lparr>ends = [10, 30 :: 64 word], data = None\<rparr> ''Foo''
       = Inr \<lparr>span_data = None, span_offset = 0, span_size = 10\<rparr>"
  by (simp add: eval_defs Buffer_move_def)

end
